theory Spec2Isabelle
  imports Main "HOL-Library.AList"
begin

section \<open>Fixed vocabularies of the language server\<close>

text \<open>
  The embedding follows \<^verbatim>\<open>src/server.ts\<close>. A JavaScript string is modelled as a
  \<^typ>\<open>string\<close>, one \<^typ>\<open>char\<close> per UTF-16 code unit, so texts range over the code units
  below 256; \<^verbatim>\<open>s.length\<close> is \<^const>\<open>length\<close>. Lines and columns are natural numbers.
\<close>

definition KEYWORDS :: "string list" where
  "KEYWORDS =
    [''and'', ''assert'', ''break'', ''catch'', ''class'', ''constructor'', ''data'', ''do'',
     ''elif'', ''else'', ''end'', ''escape'', ''eval'', ''false'', ''for'', ''function'',
     ''global'', ''if'', ''in'', ''is'', ''lambda'', ''let'', ''load'', ''loop'', ''match'',
     ''module'', ''none'', ''nonlocal'', ''not'', ''or'', ''return'', ''step'', ''struct'',
     ''system'', ''throw'', ''to'', ''true'', ''try'', ''unload'', ''until'', ''while'',
     ''with'', ''yield'']"

definition BUILTIN_FUNCTIONS :: "string list" where
  "BUILTIN_FUNCTIONS =
    [''abs'', ''all'', ''any'', ''apply'', ''bool'', ''call'', ''chr'', ''cmp'', ''dict'',
     ''enumerate'', ''filter'', ''float'', ''format'', ''freeze'', ''frozenset'', ''hash'',
     ''help'', ''id'', ''int'', ''isinstance'', ''issubclass'', ''iter'', ''len'', ''list'',
     ''map'', ''max'', ''min'', ''ord'', ''println'', ''range'', ''reduce'', ''repr'',
     ''reverse'', ''round'', ''set'', ''sorted'', ''str'', ''sum'', ''tuple'', ''type'',
     ''zip'']"

definition SYSTEM_MODULES :: "string list" where
  "SYSTEM_MODULES = [''io'', ''math'', ''os'', ''random'', ''string'', ''time'', ''util'']"

section \<open>Character classes of the regular expressions\<close>

text \<open>\<^verbatim>\<open>/\s/\<close>: tab, line feed, vertical tab, form feed, carriage return, space, no-break space.\<close>

definition is_space :: "char \<Rightarrow> bool" where
  "is_space c = (c \<in> set [CHR 0x09, CHR 0x0A, CHR 0x0B, CHR 0x0C, CHR 0x0D, CHR 0x20, CHR 0xA0])"

text \<open>\<^verbatim>\<open>/\d/\<close>\<close>

definition is_digit :: "char \<Rightarrow> bool" where
  "is_digit c = (c \<in> set ''0123456789'')"

definition is_letter :: "char \<Rightarrow> bool" where
  "is_letter c = (c \<in> set ''abcdefghijklmnopqrstuvwxyzABCDEFGHIJKLMNOPQRSTUVWXYZ'')"

text \<open>\<^verbatim>\<open>/[\d.]/\<close>\<close>

definition is_number_char :: "char \<Rightarrow> bool" where
  "is_number_char c = (is_digit c \<or> c = CHR ''.'')"

text \<open>\<^verbatim>\<open>/[a-zA-Z_]/\<close>\<close>

definition is_ident_start :: "char \<Rightarrow> bool" where
  "is_ident_start c = (is_letter c \<or> c = CHR ''_'')"

text \<open>\<^verbatim>\<open>/[a-zA-Z0-9_]/\<close>\<close>

definition is_word_char :: "char \<Rightarrow> bool" where
  "is_word_char c = (is_letter c \<or> is_digit c \<or> c = CHR ''_'')"

section \<open>AsteroidLexer\<close>

datatype token_type = STRING | NUMBER | KEYWORD | IDENTIFIER | AT | OPERATOR | PUNCTUATION

text \<open>A token object; \<open>tok_valid\<close> is the optional field \<^verbatim>\<open>valid?\<close>, present on strings only.\<close>

record token =
  tok_type :: token_type
  tok_value :: string
  tok_line :: nat
  tok_column :: nat
  tok_valid :: "bool option"

text \<open>The mutable fields of the lexer; the text itself never changes and is passed along.\<close>

record lexer =
  pos :: nat
  line :: nat
  column :: nat

text \<open>\<^verbatim>\<open>peek\<close> returns the empty string at the end of the text, which is falsy: \<open>None\<close> here.\<close>

definition peek :: "string \<Rightarrow> lexer \<Rightarrow> char option" where
  "peek text s = (if pos s < length text then Some (text ! pos s) else None)"

text \<open>Past the end \<^verbatim>\<open>this.text[this.pos]\<close> is undefined, which is not a line feed.\<close>

definition advance :: "string \<Rightarrow> lexer \<Rightarrow> lexer" where
  "advance text s =
    (if pos s < length text \<and> text ! pos s = CHR 0x0A
     then s\<lparr>line := line s + 1, column := 0, pos := pos s + 1\<rparr>
     else s\<lparr>column := column s + 1, pos := pos s + 1\<rparr>)"

lemma pos_advance [simp]: "pos (advance text s) = Suc (pos s)"
  by (simp add: advance_def)

lemma peek_Some_less: "peek text s = Some c \<Longrightarrow> pos s < length text"
  by (simp add: peek_def split: if_splits)

function skipWhitespace :: "string \<Rightarrow> lexer \<Rightarrow> lexer" where
  "skipWhitespace text s =
    (case peek text s of
       None \<Rightarrow> s
     | Some c \<Rightarrow> if is_space c then skipWhitespace text (advance text s) else s)"
  by pat_completeness auto
termination
  by (relation "measure (\<lambda>(text, s). length text - pos s)")
     (auto dest: peek_Some_less)

declare skipWhitespace.simps [simp del]

function skipComment_loop :: "string \<Rightarrow> lexer \<Rightarrow> lexer" where
  "skipComment_loop text s =
    (case peek text s of
       None \<Rightarrow> s
     | Some c \<Rightarrow> if c \<noteq> CHR 0x0A then skipComment_loop text (advance text s) else s)"
  by pat_completeness auto
termination
  by (relation "measure (\<lambda>(text, s). length text - pos s)")
     (auto dest: peek_Some_less)

declare skipComment_loop.simps [simp del]

definition skipComment :: "string \<Rightarrow> lexer \<Rightarrow> lexer" where
  "skipComment text s =
    (if peek text s = Some CHR ''%'' then skipComment_loop text s else s)"

text \<open>
  The loop of \<^verbatim>\<open>readString\<close>. \<open>quote\<close> is what \<^verbatim>\<open>peek\<close> returned at the opening quote;
  \<open>val\<close> is the accumulated \<^verbatim>\<open>value\<close>.
\<close>

function readString_loop :: "string \<Rightarrow> char option \<Rightarrow> lexer \<Rightarrow> string \<Rightarrow> lexer \<times> string" where
  "readString_loop text quote s val =
    (case peek text s of
       None \<Rightarrow> (s, val)
     | Some c \<Rightarrow>
         if Some c = quote then (s, val)
         else if c = CHR 0x5C then
           (let s1 = advance text s in
            case peek text s1 of
              Some e \<Rightarrow> readString_loop text quote (advance text s1) (val @ [e])
            | None \<Rightarrow> readString_loop text quote s1 val)
         else readString_loop text quote (advance text s) (val @ [c]))"
  by pat_completeness auto
termination
  by (relation "measure (\<lambda>(text, quote, s, val). length text - pos s)")
     (auto dest: peek_Some_less)

declare readString_loop.simps [simp del]

definition readString :: "string \<Rightarrow> lexer \<Rightarrow> lexer \<times> string \<times> bool" where
  "readString text s =
    (let quote = peek text s;
         (s', val) = readString_loop text quote (advance text s) [] in
     if peek text s' = quote then (advance text s', val, True)
     else (s', val, False))"

function readNumber_loop :: "string \<Rightarrow> lexer \<Rightarrow> string \<Rightarrow> lexer \<times> string" where
  "readNumber_loop text s val =
    (case peek text s of
       None \<Rightarrow> (s, val)
     | Some c \<Rightarrow>
         if is_number_char c then readNumber_loop text (advance text s) (val @ [c])
         else (s, val))"
  by pat_completeness auto
termination
  by (relation "measure (\<lambda>(text, s, val). length text - pos s)")
     (auto dest: peek_Some_less)

declare readNumber_loop.simps [simp del]

definition readNumber :: "string \<Rightarrow> lexer \<Rightarrow> lexer \<times> string" where
  "readNumber text s = readNumber_loop text s []"

function readIdentifier_loop :: "string \<Rightarrow> lexer \<Rightarrow> string \<Rightarrow> lexer \<times> string" where
  "readIdentifier_loop text s val =
    (case peek text s of
       None \<Rightarrow> (s, val)
     | Some c \<Rightarrow>
         if is_word_char c then readIdentifier_loop text (advance text s) (val @ [c])
         else (s, val))"
  by pat_completeness auto
termination
  by (relation "measure (\<lambda>(text, s, val). length text - pos s)")
     (auto dest: peek_Some_less)

declare readIdentifier_loop.simps [simp del]

definition readIdentifier :: "string \<Rightarrow> lexer \<Rightarrow> lexer \<times> string" where
  "readIdentifier text s = readIdentifier_loop text s []"

definition operators :: "string list" where
  "operators = [''=='', ''!='', ''<='', ''>='', ''->'', ''=>'']"

text \<open>
  The branches of the scan loop after the skips, at a position inside the text whose
  character is \<open>ch\<close>: the token pushed and the lexer after it.
\<close>

definition scan_token :: "string \<Rightarrow> lexer \<Rightarrow> char \<Rightarrow> token \<times> lexer" where
  "scan_token text s ch =
    (let startLine = line s; startColumn = column s in
     if ch = CHR 0x22 \<or> ch = CHR 0x27 then
       (let (s', val, valid) = readString text s in
        (\<lparr>tok_type = STRING, tok_value = val, tok_line = startLine,
          tok_column = startColumn, tok_valid = Some valid\<rparr>, s'))
     else if is_digit ch then
       (let (s', val) = readNumber text s in
        (\<lparr>tok_type = NUMBER, tok_value = val, tok_line = startLine,
          tok_column = startColumn, tok_valid = None\<rparr>, s'))
     else if is_ident_start ch then
       (let (s', val) = readIdentifier text s in
        (\<lparr>tok_type = (if val \<in> set KEYWORDS then KEYWORD else IDENTIFIER), tok_value = val,
          tok_line = startLine, tok_column = startColumn, tok_valid = None\<rparr>, s'))
     else if ch = CHR ''@'' then
       (\<lparr>tok_type = AT, tok_value = ''@'', tok_line = startLine,
         tok_column = startColumn, tok_valid = None\<rparr>, advance text s)
     else
       (case find (\<lambda>op. take (length op) (drop (pos s) text) = op) operators of
          Some op \<Rightarrow>
            (\<lparr>tok_type = OPERATOR, tok_value = op, tok_line = startLine,
              tok_column = startColumn, tok_valid = None\<rparr>,
             (advance text ^^ length op) s)
        | None \<Rightarrow>
            (\<lparr>tok_type = PUNCTUATION, tok_value = [ch], tok_line = startLine,
              tok_column = startColumn, tok_valid = None\<rparr>, advance text s)))"

text \<open>
  One iteration of the \<^verbatim>\<open>while\<close> loop of \<^verbatim>\<open>tokenize\<close>, entered with the position
  inside the text: the two skips, the \<^verbatim>\<open>break\<close> at the end of the text (no token), or
  one token.
\<close>

definition tokenize_step :: "string \<Rightarrow> lexer \<Rightarrow> token option \<times> lexer" where
  "tokenize_step text s =
    (let s1 = skipComment text (skipWhitespace text s) in
     if length text \<le> pos s1 then (None, s1)
     else (let (tok, s2) = scan_token text s1 (text ! pos s1) in (Some tok, s2)))"

lemma skipWhitespace_pos: "pos s \<le> pos (skipWhitespace t s)"
proof (induction t s rule: skipWhitespace.induct)
  case (1 t s)
  show ?case
  proof (cases "peek t s")
    case None
    then show ?thesis by (simp add: skipWhitespace.simps)
  next
    case (Some c)
    with "1" [of c] show ?thesis
      by (cases "is_space c") (simp_all add: skipWhitespace.simps [of t s])
  qed
qed

lemma skipComment_loop_pos: "pos s \<le> pos (skipComment_loop t s)"
proof (induction t s rule: skipComment_loop.induct)
  case (1 t s)
  show ?case
  proof (cases "peek t s")
    case None
    then show ?thesis by (simp add: skipComment_loop.simps)
  next
    case (Some c)
    with "1" [of c] show ?thesis
      by (cases "c = CHR 0x0A") (simp_all add: skipComment_loop.simps [of t s])
  qed
qed

lemma skipComment_pos: "pos s \<le> pos (skipComment t s)"
  by (simp add: skipComment_def skipComment_loop_pos)

lemma readString_loop_pos: "pos s \<le> pos (fst (readString_loop t quote s val))"
proof (induction t quote s val rule: readString_loop.induct)
  case (1 t quote s val)
  show ?case
  proof (cases "peek t s")
    case None
    then show ?thesis by (simp add: readString_loop.simps)
  next
    case (Some c)
    note c = this
    show ?thesis
    proof (cases "Some c = quote")
      case True
      then have q: "quote = Some c" by simp
      from c show ?thesis
        unfolding q by (simp add: readString_loop.simps [of t "Some c" s])
    next
      case nq: False
      show ?thesis
      proof (cases "c = CHR 0x5C")
        case False
        from "1.IH"(3) [OF c nq False]
        have "Suc (pos s) \<le> pos (fst (readString_loop t quote (advance t s) (val @ [c])))"
          by simp
        with c nq False show ?thesis
          by (simp add: readString_loop.simps [of t quote s])
      next
        case bs: True
        show ?thesis
        proof (cases "peek t (advance t s)")
          case None
          from "1.IH"(1) [OF c nq bs refl None]
          have "Suc (pos s) \<le> pos (fst (readString_loop t quote (advance t s) val))"
            by simp
          with c nq bs None show ?thesis
            by (simp add: readString_loop.simps [of t quote s])
        next
          case (Some e)
          from "1.IH"(2) [OF c nq bs refl Some]
          have "Suc (Suc (pos s))
            \<le> pos (fst (readString_loop t quote (advance t (advance t s)) (val @ [e])))"
            by simp
          with c nq bs Some show ?thesis
            by (simp add: readString_loop.simps [of t quote s])
        qed
      qed
    qed
  qed
qed

lemma readString_pos: "pos s < pos (fst (readString t s))"
proof -
  obtain s' val where r: "readString_loop t (peek t s) (advance t s) [] = (s', val)"
    by (cases "readString_loop t (peek t s) (advance t s) []")
  from readString_loop_pos [of "advance t s" t "peek t s" "[]"] r
  have "Suc (pos s) \<le> pos s'" by simp
  with r show ?thesis by (simp add: readString_def)
qed

lemma readNumber_loop_pos: "pos s \<le> pos (fst (readNumber_loop t s val))"
proof (induction t s val rule: readNumber_loop.induct)
  case (1 t s val)
  show ?case
  proof (cases "peek t s")
    case None
    then show ?thesis by (simp add: readNumber_loop.simps)
  next
    case (Some c)
    with "1" [of c] show ?thesis
      by (cases "is_number_char c") (simp_all add: readNumber_loop.simps [of t s])
  qed
qed

lemma readNumber_pos:
  assumes "pos s < length t" and "is_digit (t ! pos s)"
  shows "pos s < pos (fst (readNumber t s))"
proof -
  from assms have "readNumber t s = readNumber_loop t (advance t s) [t ! pos s]"
    by (simp add: readNumber_def readNumber_loop.simps [of t s] peek_def is_number_char_def)
  with readNumber_loop_pos [of "advance t s" t "[t ! pos s]"] show ?thesis by simp
qed

lemma readIdentifier_loop_pos: "pos s \<le> pos (fst (readIdentifier_loop t s val))"
proof (induction t s val rule: readIdentifier_loop.induct)
  case (1 t s val)
  show ?case
  proof (cases "peek t s")
    case None
    then show ?thesis by (simp add: readIdentifier_loop.simps)
  next
    case (Some c)
    with "1" [of c] show ?thesis
      by (cases "is_word_char c") (simp_all add: readIdentifier_loop.simps [of t s])
  qed
qed

lemma readIdentifier_pos:
  assumes "pos s < length t" and "is_ident_start (t ! pos s)"
  shows "pos s < pos (fst (readIdentifier t s))"
proof -
  from assms have "readIdentifier t s = readIdentifier_loop t (advance t s) [t ! pos s]"
    by (auto simp add: readIdentifier_def readIdentifier_loop.simps [of t s] peek_def
        is_ident_start_def is_word_char_def)
  with readIdentifier_loop_pos [of "advance t s" t "[t ! pos s]"] show ?thesis by simp
qed

lemma pos_funpow_advance [simp]: "pos ((advance t ^^ n) s) = pos s + n"
  by (induction n) simp_all

lemma find_operators_length:
  "find P operators = Some op \<Longrightarrow> length op = 2"
  by (auto simp add: operators_def split: if_splits)

lemma scan_token_pos:
  assumes "pos s < length t"
  shows "pos s < pos (snd (scan_token t s (t ! pos s)))"
proof -
  have op: "\<And>P op. find P operators = Some op \<Longrightarrow> 0 < length op"
    by (drule find_operators_length) simp
  from assms readString_pos [of s t] readNumber_pos [of s t] readIdentifier_pos [of s t]
  show ?thesis
    by (auto simp add: scan_token_def Let_def split: prod.splits option.splits dest: op)
qed

lemma tokenize_step_pos:
  assumes "pos s < length t"
  shows "pos s < pos (snd (tokenize_step t s))"
proof -
  let ?s1 = "skipComment t (skipWhitespace t s)"
  have le: "pos s \<le> pos ?s1"
    using skipWhitespace_pos [of s t] skipComment_pos [of "skipWhitespace t s" t]
    by simp
  show ?thesis
  proof (cases "length t \<le> pos ?s1")
    case True
    with assms show ?thesis by (simp add: tokenize_step_def)
  next
    case False
    then have "pos ?s1 < pos (snd (scan_token t ?s1 (t ! pos ?s1)))"
      by (simp add: scan_token_pos)
    with le False show ?thesis
      by (auto simp add: tokenize_step_def Let_def split: prod.splits)
  qed
qed

lemma tokenize_step_measure:
  assumes "pos s < length t" and "tokenize_step t s = (r, s')"
  shows "length t - pos s' < length t - pos s"
  using tokenize_step_pos [OF assms(1)] assms by simp

function tokenize_loop :: "string \<Rightarrow> lexer \<Rightarrow> token list" where
  "tokenize_loop text s =
    (if pos s < length text then
       (case tokenize_step text s of
          (None, s') \<Rightarrow> []
        | (Some tok, s') \<Rightarrow> tok # tokenize_loop text s')
     else [])"
  by pat_completeness auto
termination
  by (relation "measure (\<lambda>(text, s). length text - pos s)")
     (auto dest: tokenize_step_measure tokenize_step_measure [OF _ sym])

declare tokenize_loop.simps [simp del]

definition tokenize :: "string \<Rightarrow> token list" where
  "tokenize text = tokenize_loop text \<lparr>pos = 0, line = 0, column = 0\<rparr>"

section \<open>AsteroidParser\<close>

datatype SymbolKind = SK_Function | SK_Variable | SK_Struct

record position =
  pos_line :: nat
  pos_character :: nat

record lsp_range =
  range_start :: position
  range_end :: position

text \<open>\<^verbatim>\<open>detail\<close> and \<^verbatim>\<open>type\<close> are optional fields of \<^verbatim>\<open>AsteroidSymbol\<close>.\<close>

record AsteroidSymbol =
  sym_name :: string
  sym_kind :: SymbolKind
  sym_range :: lsp_range
  sym_selectionRange :: lsp_range
  sym_detail :: "string option"
  sym_type :: "string option"

text \<open>
  A JavaScript \<^verbatim>\<open>Map\<close> keeps its keys in insertion order and \<^verbatim>\<open>set\<close> on a present key
  replaces the value in place: an association list with \<^const>\<open>AList.update\<close>;
  \<^verbatim>\<open>has\<close>/\<^verbatim>\<open>get\<close> are \<^const>\<open>map_of\<close>.
\<close>

text \<open>The fields \<^verbatim>\<open>symbols\<close>, \<^verbatim>\<open>imports\<close>, \<^verbatim>\<open>functions\<close> and \<^verbatim>\<open>variables\<close>.\<close>

record DocumentInfo =
  di_symbols :: "(string \<times> AsteroidSymbol) list"
  di_imports :: "string list"
  di_functions :: "(string \<times> AsteroidSymbol) list"
  di_variables :: "(string \<times> AsteroidSymbol) list"

definition parser_peek :: "token list \<Rightarrow> nat \<Rightarrow> token option" where
  "parser_peek toks p = (if p < length toks then Some (toks ! p) else None)"

definition parser_advance :: "token list \<Rightarrow> nat \<Rightarrow> token option \<times> nat" where
  "parser_advance toks p = (if p < length toks then (Some (toks ! p), p + 1) else (None, p))"

definition parseLoad :: "token list \<Rightarrow> nat \<Rightarrow> DocumentInfo \<Rightarrow> nat \<times> DocumentInfo" where
  "parseLoad toks p info =
    (let p1 = snd (parser_advance toks p) in
     case parser_peek toks p1 of
       Some systemToken \<Rightarrow>
         if tok_type systemToken = KEYWORD \<and> tok_value systemToken = ''system'' then
           (let p2 = snd (parser_advance toks p1) in
            case parser_peek toks p2 of
              Some moduleToken \<Rightarrow>
                if tok_type moduleToken = IDENTIFIER then
                  (snd (parser_advance toks p2),
                   info\<lparr>di_imports := di_imports info @ [tok_value moduleToken]\<rparr>)
                else (p2, info)
            | None \<Rightarrow> (p2, info))
         else (p1, info)
     | None \<Rightarrow> (p1, info))"

text \<open>
  In the three handlers below \<^verbatim>\<open>advance\<close> returns null only at the end of the tokens,
  where \<^verbatim>\<open>peek\<close> returns null as well, so \<^verbatim>\<open>startToken\<close> is never read then.
\<close>

definition parseFunction :: "token list \<Rightarrow> nat \<Rightarrow> DocumentInfo \<Rightarrow> nat \<times> DocumentInfo" where
  "parseFunction toks p info =
    (case parser_advance toks p of
       (None, p1) \<Rightarrow> (p1, info)
     | (Some startToken, p1) \<Rightarrow>
        (case parser_peek toks p1 of
           Some nameToken \<Rightarrow>
             if tok_type nameToken = IDENTIFIER then
               (let name = tok_value nameToken;
                    p2 = snd (parser_advance toks p1);
                    rng = \<lparr>range_start = \<lparr>pos_line = tok_line startToken,
                                            pos_character = tok_column startToken\<rparr>,
                           range_end = \<lparr>pos_line = tok_line nameToken,
                                          pos_character = tok_column nameToken + length name\<rparr>\<rparr>;
                    symbol = \<lparr>sym_name = name, sym_kind = SK_Function, sym_range = rng,
                              sym_selectionRange = rng, sym_detail = None,
                              sym_type = Some ''function''\<rparr>
                in (p2, info\<lparr>di_functions := AList.update name symbol (di_functions info),
                              di_symbols := AList.update name symbol (di_symbols info)\<rparr>))
             else (p1, info)
         | None \<Rightarrow> (p1, info)))"

definition parseVariable :: "token list \<Rightarrow> nat \<Rightarrow> DocumentInfo \<Rightarrow> nat \<times> DocumentInfo" where
  "parseVariable toks p info =
    (case parser_advance toks p of
       (None, p1) \<Rightarrow> (p1, info)
     | (Some startToken, p1) \<Rightarrow>
        (case parser_peek toks p1 of
           Some nameToken \<Rightarrow>
             if tok_type nameToken = IDENTIFIER then
               (let name = tok_value nameToken;
                    p2 = snd (parser_advance toks p1);
                    rng = \<lparr>range_start = \<lparr>pos_line = tok_line startToken,
                                            pos_character = tok_column startToken\<rparr>,
                           range_end = \<lparr>pos_line = tok_line nameToken,
                                          pos_character = tok_column nameToken + length name\<rparr>\<rparr>;
                    symbol = \<lparr>sym_name = name, sym_kind = SK_Variable, sym_range = rng,
                              sym_selectionRange = rng, sym_detail = None,
                              sym_type = Some ''variable''\<rparr>
                in (p2, info\<lparr>di_variables := AList.update name symbol (di_variables info),
                              di_symbols := AList.update name symbol (di_symbols info)\<rparr>))
             else (p1, info)
         | None \<Rightarrow> (p1, info)))"

definition parseStruct :: "token list \<Rightarrow> nat \<Rightarrow> DocumentInfo \<Rightarrow> nat \<times> DocumentInfo" where
  "parseStruct toks p info =
    (case parser_advance toks p of
       (None, p1) \<Rightarrow> (p1, info)
     | (Some startToken, p1) \<Rightarrow>
        (case parser_peek toks p1 of
           Some nameToken \<Rightarrow>
             if tok_type nameToken = IDENTIFIER then
               (let name = tok_value nameToken;
                    p2 = snd (parser_advance toks p1);
                    rng = \<lparr>range_start = \<lparr>pos_line = tok_line startToken,
                                            pos_character = tok_column startToken\<rparr>,
                           range_end = \<lparr>pos_line = tok_line nameToken,
                                          pos_character = tok_column nameToken + length name\<rparr>\<rparr>;
                    symbol = \<lparr>sym_name = name, sym_kind = SK_Struct, sym_range = rng,
                              sym_selectionRange = rng, sym_detail = None,
                              sym_type = Some (tok_value startToken)\<rparr>
                in (p2, info\<lparr>di_symbols := AList.update name symbol (di_symbols info)\<rparr>))
             else (p1, info)
         | None \<Rightarrow> (p1, info)))"

text \<open>
  One iteration of the \<^verbatim>\<open>while\<close> loop of \<^verbatim>\<open>parse\<close>: \<open>None\<close> is the \<^verbatim>\<open>break\<close>,
  otherwise the position and the DocumentInfo after the \<^verbatim>\<open>switch\<close>.
\<close>

definition parse_step :: "token list \<Rightarrow> nat \<Rightarrow> DocumentInfo \<Rightarrow> (nat \<times> DocumentInfo) option" where
  "parse_step toks p info =
    (case parser_peek toks p of
       None \<Rightarrow> None
     | Some token \<Rightarrow>
         if tok_type token = KEYWORD then
           (if tok_value token = ''load'' then Some (parseLoad toks p info)
            else if tok_value token = ''function'' then Some (parseFunction toks p info)
            else if tok_value token = ''let'' then Some (parseVariable toks p info)
            else if tok_value token = ''struct'' \<or> tok_value token = ''data''
              then Some (parseStruct toks p info)
            else Some (snd (parser_advance toks p), info))
         else Some (snd (parser_advance toks p), info))"

lemma parseLoad_pos: "p < length toks \<Longrightarrow> p < fst (parseLoad toks p info)"
  by (auto simp add: parseLoad_def parser_advance_def parser_peek_def Let_def
      split: option.splits)

lemma parseFunction_pos: "p < length toks \<Longrightarrow> p < fst (parseFunction toks p info)"
  by (auto simp add: parseFunction_def parser_advance_def parser_peek_def Let_def
      split: option.splits)

lemma parseVariable_pos: "p < length toks \<Longrightarrow> p < fst (parseVariable toks p info)"
  by (auto simp add: parseVariable_def parser_advance_def parser_peek_def Let_def
      split: option.splits)

lemma parseStruct_pos: "p < length toks \<Longrightarrow> p < fst (parseStruct toks p info)"
  by (auto simp add: parseStruct_def parser_advance_def parser_peek_def Let_def
      split: option.splits)

lemma parse_step_pos:
  assumes "parse_step toks p info = Some (p', info')"
  shows "p < p'"
proof -
  from assms have lt: "p < length toks"
    by (simp add: parse_step_def parser_peek_def split: if_splits)
  from assms lt parseLoad_pos [OF lt, of info] parseFunction_pos [OF lt, of info]
    parseVariable_pos [OF lt, of info] parseStruct_pos [OF lt, of info]
  show ?thesis
    by (auto simp add: parse_step_def parser_peek_def parser_advance_def split: if_splits)
qed

function parse_loop :: "token list \<Rightarrow> nat \<Rightarrow> DocumentInfo \<Rightarrow> DocumentInfo" where
  "parse_loop toks p info =
    (if p < length toks then
       (case parse_step toks p info of
          None \<Rightarrow> info
        | Some (p', info') \<Rightarrow> parse_loop toks p' info')
     else info)"
  by pat_completeness auto
termination
  by (relation "measure (\<lambda>(toks, p, info). length toks - p)")
     (auto dest: parse_step_pos)

declare parse_loop.simps [simp del]

definition parse :: "token list \<Rightarrow> DocumentInfo" where
  "parse toks =
    parse_loop toks 0 \<lparr>di_symbols = [], di_imports = [], di_functions = [], di_variables = []\<rparr>"

section \<open>validateDocument\<close>

datatype DiagnosticSeverity = Error | Warning | Information | Hint

record Diagnostic =
  severity :: DiagnosticSeverity
  diag_range :: lsp_range
  message :: string
  source :: string

text \<open>
  \<^verbatim>\<open>/^\d+\.?\d*$/.test(v)\<close>: the longest run of digits at the start is not empty, and what
  follows it is nothing, or a dot followed by digits only (possibly none).
\<close>

definition number_regex :: "string \<Rightarrow> bool" where
  "number_regex v =
    (takeWhile is_digit v \<noteq> [] \<and>
     (case dropWhile is_digit v of
        [] \<Rightarrow> True
      | c # fs \<Rightarrow> c = CHR ''.'' \<and> list_all is_digit fs))"

text \<open>The body of the \<^verbatim>\<open>for\<close> loop: the diagnostics pushed for one token, in order.\<close>

definition validate_token :: "token \<Rightarrow> Diagnostic list" where
  "validate_token tok =
    (if tok_type tok = STRING \<and> tok_valid tok = Some False then
       [\<lparr>severity = Error,
         diag_range = \<lparr>range_start = \<lparr>pos_line = tok_line tok, pos_character = tok_column tok\<rparr>,
                       range_end = \<lparr>pos_line = tok_line tok,
                         pos_character = tok_column tok + length (tok_value tok) + 1\<rparr>\<rparr>,
         message = ''Unterminated string literal'', source = ''asteroid-lsp''\<rparr>]
     else []) @
    (if tok_type tok = NUMBER \<and> \<not> number_regex (tok_value tok) then
       [\<lparr>severity = Error,
         diag_range = \<lparr>range_start = \<lparr>pos_line = tok_line tok, pos_character = tok_column tok\<rparr>,
                       range_end = \<lparr>pos_line = tok_line tok,
                         pos_character = tok_column tok + length (tok_value tok)\<rparr>\<rparr>,
         message = ''Invalid number format'', source = ''asteroid-lsp''\<rparr>]
     else [])"

text \<open>The \<^verbatim>\<open>textDocument\<close> argument is not read by the function and is left out.\<close>

definition validateDocument :: "token list \<Rightarrow> Diagnostic list" where
  "validateDocument toks = concat (map validate_token toks)"

section \<open>Query providers\<close>

datatype CompletionItemKind = CK_Keyword | CK_Function | CK_Module | CK_Variable | CK_Class

text \<open>\<^verbatim>\<open>kind\<close> and \<^verbatim>\<open>detail\<close> are optional fields of a \<^verbatim>\<open>CompletionItem\<close>.\<close>

record CompletionItem =
  ci_label :: string
  ci_kind :: "CompletionItemKind option"
  ci_detail :: "string option"

text \<open>
  \<^verbatim>\<open>onCompletion\<close>, with the store \<^verbatim>\<open>documentInfos\<close> passed in. The request carries the
  document's uri and a cursor position; a template literal prints an absent \<^verbatim>\<open>type\<close> as
  \<^verbatim>\<open>undefined\<close>.
\<close>

definition onCompletion ::
    "(string \<rightharpoonup> DocumentInfo) \<Rightarrow> string \<Rightarrow> position \<Rightarrow> CompletionItem list" where
  "onCompletion documentInfos uri cursor =
    map (\<lambda>keyword. \<lparr>ci_label = keyword, ci_kind = Some CK_Keyword,
                     ci_detail = Some (''Asteroid keyword: '' @ keyword)\<rparr>) KEYWORDS @
    map (\<lambda>func. \<lparr>ci_label = func, ci_kind = Some CK_Function,
                  ci_detail = Some (''Built-in function: '' @ func)\<rparr>) BUILTIN_FUNCTIONS @
    map (\<lambda>modl. \<lparr>ci_label = modl, ci_kind = Some CK_Module,
                  ci_detail = Some (''System module: '' @ modl)\<rparr>) SYSTEM_MODULES @
    (case documentInfos uri of
       Some docInfo \<Rightarrow>
         map (\<lambda>symbol.
               \<lparr>ci_label = sym_name symbol,
                ci_kind = Some (if sym_kind symbol = SK_Function then CK_Function
                                else if sym_kind symbol = SK_Variable then CK_Variable
                                else CK_Class),
                ci_detail = Some ((case sym_type symbol of Some ty \<Rightarrow> ty | None \<Rightarrow> ''undefined'')
                                  @ '': '' @ sym_name symbol)\<rparr>)
             (map snd (di_symbols docInfo))
     | None \<Rightarrow> [])"

text \<open>The two scans of \<^verbatim>\<open>getWordRangeAtPosition\<close>.\<close>

fun find_start :: "string \<Rightarrow> nat \<Rightarrow> nat" where
  "find_start ln 0 = 0"
| "find_start ln (Suc n) = (if is_word_char (ln ! n) then find_start ln n else Suc n)"

function find_end :: "string \<Rightarrow> nat \<Rightarrow> nat" where
  "find_end ln e = (if e < length ln \<and> is_word_char (ln ! e) then find_end ln (Suc e) else e)"
  by pat_completeness auto
termination
  by (relation "measure (\<lambda>(ln, e). length ln - e)") auto

declare find_end.simps [simp del]

definition getWordRangeAtPosition :: "string \<Rightarrow> int \<Rightarrow> (nat \<times> nat) option" where
  "getWordRangeAtPosition ln character =
    (if character < 0 \<or> int (length ln) \<le> character then None
     else (let wstart = find_start ln (nat character);
               wend = find_end ln (nat character)
           in if wstart = wend then None else Some (wstart, wend)))"

text \<open>
  \<^verbatim>\<open>line.substring(wordRange.start, wordRange.end)\<close>, the word that \<^verbatim>\<open>onHover\<close> and
  \<^verbatim>\<open>onDefinition\<close> look up.
\<close>

definition word_at :: "string \<Rightarrow> int \<Rightarrow> string option" where
  "word_at ln character =
    (case getWordRangeAtPosition ln character of
       None \<Rightarrow> None
     | Some (wstart, wend) \<Rightarrow> Some (take (wend - wstart) (drop wstart ln)))"

section \<open>Positional readings of the specification\<close>

text \<open>
  The strict number pattern of the specification, \<^verbatim>\<open>digits ('.' digits)?\<close>: a non-empty run
  of digits, then nothing or a dot followed by a non-empty run of digits.
\<close>

definition strict_number_pattern :: "string \<Rightarrow> bool" where
  "strict_number_pattern v =
    (takeWhile is_digit v \<noteq> [] \<and>
     (case dropWhile is_digit v of
        [] \<Rightarrow> True
      | c # fs \<Rightarrow> c = CHR ''.'' \<and> fs \<noteq> [] \<and> list_all is_digit fs))"

text \<open>A non-empty run of digits followed by a single dot and nothing else, as in \<^verbatim>\<open>1.\<close>\<close>

definition trailing_dot_number :: "string \<Rightarrow> bool" where
  "trailing_dot_number v = (takeWhile is_digit v \<noteq> [] \<and> dropWhile is_digit v = ''.'')"

text \<open>
  A recognised declaration at index \<open>i\<close> of a token sequence: a \<^verbatim>\<open>function\<close>, \<^verbatim>\<open>let\<close>,
  \<^verbatim>\<open>struct\<close> or \<^verbatim>\<open>data\<close> keyword token immediately followed by an Identifier token, and
  the Symbol the specification describes for it.
\<close>

definition declaration_at :: "token list \<Rightarrow> nat \<Rightarrow> AsteroidSymbol option" where
  "declaration_at toks i =
    (if Suc i < length toks \<and> tok_type (toks ! i) = KEYWORD \<and>
        tok_value (toks ! i) \<in> set [''function'', ''let'', ''struct'', ''data''] \<and>
        tok_type (toks ! Suc i) = IDENTIFIER
     then
       (let kw = toks ! i; ident = toks ! Suc i;
            rng = \<lparr>range_start = \<lparr>pos_line = tok_line kw, pos_character = tok_column kw\<rparr>,
                   range_end = \<lparr>pos_line = tok_line ident,
                     pos_character = tok_column ident + length (tok_value ident)\<rparr>\<rparr>
        in Some \<lparr>sym_name = tok_value ident,
                 sym_kind = (if tok_value kw = ''function'' then SK_Function
                             else if tok_value kw = ''let'' then SK_Variable else SK_Struct),
                 sym_range = rng, sym_selectionRange = rng, sym_detail = None,
                 sym_type = Some (if tok_value kw = ''function'' then ''function''
                                  else if tok_value kw = ''let'' then ''variable''
                                  else tok_value kw)\<rparr>)
     else None)"

definition declarations_from :: "token list \<Rightarrow> nat \<Rightarrow> AsteroidSymbol list" where
  "declarations_from toks p = List.map_filter (declaration_at toks) [p..<length toks]"

definition declarations :: "token list \<Rightarrow> AsteroidSymbol list" where
  "declarations toks = declarations_from toks 0"

text \<open>
  A recognised import at index \<open>i\<close>: the \<^verbatim>\<open>load\<close> keyword, then the \<^verbatim>\<open>system\<close> keyword,
  then an Identifier token, whose text is the module name.
\<close>

definition load_at :: "token list \<Rightarrow> nat \<Rightarrow> string option" where
  "load_at toks i =
    (if Suc (Suc i) < length toks \<and>
        tok_type (toks ! i) = KEYWORD \<and> tok_value (toks ! i) = ''load'' \<and>
        tok_type (toks ! Suc i) = KEYWORD \<and> tok_value (toks ! Suc i) = ''system'' \<and>
        tok_type (toks ! Suc (Suc i)) = IDENTIFIER
     then Some (tok_value (toks ! Suc (Suc i)))
     else None)"

definition loads_from :: "token list \<Rightarrow> nat \<Rightarrow> string list" where
  "loads_from toks p = List.map_filter (load_at toks) [p..<length toks]"

definition loaded_modules :: "token list \<Rightarrow> string list" where
  "loaded_modules toks = loads_from toks 0"

text \<open>
  The body of a string literal, read as a sequence of items: a plain character, which is
  neither the quote nor a backslash, or an escape, a backslash followed by any character.
  A quote that follows a sequence of items is unescaped; the value of an item is the
  character itself, for an escape the character after the backslash.
\<close>

datatype string_item = Plain char | Escaped char

fun item_text :: "string_item \<Rightarrow> string" where
  "item_text (Plain c) = [c]"
| "item_text (Escaped e) = [CHR 0x5C, e]"

fun item_value :: "string_item \<Rightarrow> char" where
  "item_value (Plain c) = c"
| "item_value (Escaped e) = e"

fun well_formed_item :: "char \<Rightarrow> string_item \<Rightarrow> bool" where
  "well_formed_item q (Plain c) = (c \<noteq> q \<and> c \<noteq> CHR 0x5C)"
| "well_formed_item q (Escaped e) = True"

definition items_text :: "string_item list \<Rightarrow> string" where
  "items_text items = concat (map item_text items)"

text \<open>The last element of a list, if any.\<close>

definition last_option :: "'a list \<Rightarrow> 'a option" where
  "last_option xs = (if xs = [] then None else Some (last xs))"

text \<open>\<^verbatim>\<open>map.set(symbol.name, symbol)\<close>\<close>

definition record_symbol ::
    "AsteroidSymbol \<Rightarrow> (string \<times> AsteroidSymbol) list \<Rightarrow> (string \<times> AsteroidSymbol) list" where
  "record_symbol symbol table = AList.update (sym_name symbol) symbol table"

text \<open>
  What one iteration of the loop of \<^verbatim>\<open>parse\<close> from position \<open>p\<close> to \<open>p'\<close> does to the
  DocumentInfo, in terms of the declarations and imports recognised at the indices from
  \<open>p\<close> up to \<open>p'\<close>.
\<close>

definition step_effect ::
    "token list \<Rightarrow> nat \<Rightarrow> nat \<Rightarrow> DocumentInfo \<Rightarrow> DocumentInfo \<Rightarrow> bool" where
  "step_effect toks p p' info info' =
    (p < p' \<and> p' \<le> length toks \<and>
     di_symbols info' =
       fold record_symbol (List.map_filter (declaration_at toks) [p..<p']) (di_symbols info) \<and>
     di_functions info' =
       fold record_symbol
         (filter (\<lambda>s. sym_kind s = SK_Function) (List.map_filter (declaration_at toks) [p..<p']))
         (di_functions info) \<and>
     di_variables info' =
       fold record_symbol
         (filter (\<lambda>s. sym_kind s = SK_Variable) (List.map_filter (declaration_at toks) [p..<p']))
         (di_variables info) \<and>
     di_imports info' = di_imports info @ List.map_filter (load_at toks) [p..<p'])"

section \<open>The tokenizer terminates\<close>

lemma tokenize_loop_length: "length (tokenize_loop t s) \<le> length t - pos s"
proof (induction t s rule: tokenize_loop.induct)
  case (1 t s)
  show ?case
  proof (cases "pos s < length t")
    case False
    then show ?thesis by (simp add: tokenize_loop.simps)
  next
    case True
    obtain r s' where st: "tokenize_step t s = (r, s')" by (cases "tokenize_step t s")
    from tokenize_step_pos [OF True] st have lt: "pos s < pos s'" by simp
    show ?thesis
    proof (cases r)
      case None
      with True st show ?thesis by (simp add: tokenize_loop.simps [of t s])
    next
      case (Some tok)
      from "1.IH" [OF True st [symmetric] Some]
      have "length (tokenize_loop t s') \<le> length t - pos s'" .
      with True st Some lt show ?thesis by (simp add: tokenize_loop.simps [of t s])
    qed
  qed
qed

text \<open>
  Claim C10. \<open>tokenize\<close> is a total function: its loop is defined by recursion on the
  distance of the scan position to the end of the text. Every iteration entered inside the
  text strictly increases the position: the whitespace and comment skips never move
  backward, and each token branch (string, number, identifier, at-sign, operator,
  punctuation) advances by at least one character. The token sequence returned is finite,
  with at most one token per character of the text.
\<close>

theorem tokenize_progress:
  "(pos s < length t \<longrightarrow>
      pos s \<le> pos (skipWhitespace t s) \<and>
      pos (skipWhitespace t s) \<le> pos (skipComment t (skipWhitespace t s)) \<and>
      pos s < pos (snd (scan_token t s (t ! pos s))) \<and>
      pos s < pos (snd (tokenize_step t s))) \<and>
   length (tokenize t) \<le> length t"
  using tokenize_loop_length [of t "\<lparr>pos = 0, line = 0, column = 0\<rparr>"]
  by (simp add: skipWhitespace_pos skipComment_pos scan_token_pos tokenize_step_pos tokenize_def)

theorem tokenize_progress_witness:
  "pos \<lparr>pos = 0, line = 0, column = 0\<rparr> < length ''a == 1'' \<and>
   pos \<lparr>pos = 0, line = 0, column = 0\<rparr>
     < pos (snd (tokenize_step ''a == 1'' \<lparr>pos = 0, line = 0, column = 0\<rparr>)) \<and>
   length (tokenize ''a == 1'') \<le> length ''a == 1''"
  using tokenize_progress [of "\<lparr>pos = 0, line = 0, column = 0\<rparr>" "''a == 1''"]
  by simp

section \<open>Whitespace and comments\<close>

text \<open>
  Claim C3. Whitespace and line comments are meant to be skipped without a token. The
  skips run once per iteration, whitespace first and the comment second, and the comment
  skip stops in front of the line feed that ends the comment. That line feed is then
  scanned as a token: on the text \<^verbatim>\<open>% c\<close>, line feed, \<^verbatim>\<open>x\<close> the tokenizer returns a
  Punctuation token whose text is the line feed, a whitespace character, before the
  Identifier \<^verbatim>\<open>x\<close>; the same line feed without a comment in front of it gives no token.
\<close>

theorem tokenize_newline_after_comment:
  "tokenize ''% c\<newline>x'' =
     [\<lparr>tok_type = PUNCTUATION, tok_value = [CHR 0x0A], tok_line = 0, tok_column = 3,
       tok_valid = None\<rparr>,
      \<lparr>tok_type = IDENTIFIER, tok_value = ''x'', tok_line = 1, tok_column = 0,
       tok_valid = None\<rparr>] \<and>
   is_space (CHR 0x0A) \<and>
   tokenize ''\<newline>x'' =
     [\<lparr>tok_type = IDENTIFIER, tok_value = ''x'', tok_line = 1, tok_column = 0,
       tok_valid = None\<rparr>]"
  by code_simp

section \<open>Number diagnostics\<close>

text \<open>
  \<open>number_regex\<close> accepts the language of the regular expression: one or more digits,
  an optional dot, zero or more digits, and nothing else.
\<close>

lemma number_regex_language:
  "number_regex v \<longleftrightarrow>
     (\<exists>ds fs. ds \<noteq> [] \<and> list_all is_digit ds \<and> list_all is_digit fs \<and>
        (v = ds @ fs \<or> v = ds @ CHR ''.'' # fs))"
proof
  assume r: "number_regex v"
  let ?ds = "takeWhile is_digit v"
  have ds: "?ds \<noteq> []" "list_all is_digit ?ds"
    using r by (auto simp add: number_regex_def list_all_iff dest: set_takeWhileD)
  have v: "v = ?ds @ dropWhile is_digit v" by simp
  show "\<exists>ds fs. ds \<noteq> [] \<and> list_all is_digit ds \<and> list_all is_digit fs \<and>
        (v = ds @ fs \<or> v = ds @ CHR ''.'' # fs)"
  proof (cases "dropWhile is_digit v")
    case Nil
    with v have "v = ?ds @ []" by simp
    with ds show ?thesis by (intro exI [of _ ?ds] exI [of _ "[]"]) simp
  next
    case (Cons c fs)
    with r have "c = CHR ''.''" "list_all is_digit fs"
      by (simp_all add: number_regex_def)
    moreover from v Cons have "v = ?ds @ c # fs" by simp
    ultimately show ?thesis using ds by (intro exI [of _ ?ds] exI [of _ fs]) simp
  qed
next
  assume "\<exists>ds fs. ds \<noteq> [] \<and> list_all is_digit ds \<and> list_all is_digit fs \<and>
        (v = ds @ fs \<or> v = ds @ CHR ''.'' # fs)"
  then obtain ds fs where ds: "ds \<noteq> []" "list_all is_digit ds" and fs: "list_all is_digit fs"
    and v: "v = ds @ fs \<or> v = ds @ CHR ''.'' # fs"
    by blast
  have nd: "\<not> is_digit CHR ''.''" by (simp add: is_digit_def)
  from v show "number_regex v"
  proof
    assume "v = ds @ fs"
    with ds fs have tw: "takeWhile is_digit v = v" and dw: "dropWhile is_digit v = []"
      and ne: "v \<noteq> []"
      by (auto simp add: list_all_iff)
    show ?thesis unfolding number_regex_def tw dw using ne by simp
  next
    assume "v = ds @ CHR ''.'' # fs"
    with ds nd have tw: "takeWhile is_digit v = ds"
      and dw: "dropWhile is_digit v = CHR ''.'' # fs"
      by (simp_all add: list_all_iff takeWhile_append2 dropWhile_append2)
    show ?thesis unfolding number_regex_def tw dw using ds fs by simp
  qed
qed

lemma number_regex_iff:
  "number_regex v \<longleftrightarrow> strict_number_pattern v \<or> trailing_dot_number v"
proof (cases "dropWhile is_digit v")
  case Nil
  show ?thesis
    unfolding number_regex_def strict_number_pattern_def trailing_dot_number_def Nil by simp
next
  case (Cons c fs)
  show ?thesis
    unfolding number_regex_def strict_number_pattern_def trailing_dot_number_def Cons by auto
qed

lemma validateDocument_Cons:
  "validateDocument (tok # toks) = validate_token tok @ validateDocument toks"
  by (simp add: validateDocument_def)

text \<open>
  Claim C2, as the code has it. \<open>validateDocument\<close> emits one \<^verbatim>\<open>Invalid number format\<close>
  diagnostic, of severity Error and with a range from the token's column to the column plus
  the length of its text, for exactly the Number tokens whose text matches neither the
  strict pattern \<^verbatim>\<open>digits ('.' digits)?\<close> nor a run of digits followed by a single trailing
  dot; the diagnostics come in token order.
\<close>

theorem invalid_number_diagnostics:
  "filter (\<lambda>d. message d = ''Invalid number format'') (validateDocument toks) =
   map (\<lambda>tok. \<lparr>severity = Error,
          diag_range = \<lparr>range_start = \<lparr>pos_line = tok_line tok, pos_character = tok_column tok\<rparr>,
                        range_end = \<lparr>pos_line = tok_line tok,
                          pos_character = tok_column tok + length (tok_value tok)\<rparr>\<rparr>,
          message = ''Invalid number format'', source = ''asteroid-lsp''\<rparr>)
     (filter (\<lambda>tok. tok_type tok = NUMBER \<and>
                \<not> (strict_number_pattern (tok_value tok) \<or> trailing_dot_number (tok_value tok)))
        toks)"
proof (induction toks)
  case Nil
  show ?case by (simp add: validateDocument_def)
next
  case (Cons tok toks)
  then show ?case
    by (simp add: validateDocument_Cons validate_token_def number_regex_iff)
qed

theorem invalid_number_diagnostics_witness:
  "filter (\<lambda>d. message d = ''Invalid number format'') (validateDocument (tokenize ''1.2.3 1. 1.5'')) =
     [\<lparr>severity = Error,
       diag_range = \<lparr>range_start = \<lparr>pos_line = 0, pos_character = 0\<rparr>,
                     range_end = \<lparr>pos_line = 0, pos_character = 5\<rparr>\<rparr>,
       message = ''Invalid number format'', source = ''asteroid-lsp''\<rparr>]"
proof -
  have t: "tokenize ''1.2.3 1. 1.5'' =
    [\<lparr>tok_type = NUMBER, tok_value = ''1.2.3'', tok_line = 0, tok_column = 0, tok_valid = None\<rparr>,
     \<lparr>tok_type = NUMBER, tok_value = ''1.'', tok_line = 0, tok_column = 6, tok_valid = None\<rparr>,
     \<lparr>tok_type = NUMBER, tok_value = ''1.5'', tok_line = 0, tok_column = 9, tok_valid = None\<rparr>]"
    by code_simp
  show ?thesis
    unfolding invalid_number_diagnostics t
    by (simp add: strict_number_pattern_def trailing_dot_number_def is_digit_def)
qed

text \<open>
  The claim as stated fails: the text \<^verbatim>\<open>1.\<close> is scanned as one Number token, its text does
  not match the strict pattern, and no diagnostic is emitted for it.
\<close>

theorem number_one_dot_counterexample:
  "tokenize ''1.'' =
     [\<lparr>tok_type = NUMBER, tok_value = ''1.'', tok_line = 0, tok_column = 0, tok_valid = None\<rparr>] \<and>
   \<not> strict_number_pattern ''1.'' \<and>
   validateDocument (tokenize ''1.'') = []"
  by code_simp

section \<open>Completion\<close>

lemma symbol_item_in_completion:
  assumes "store uri = Some docInfo" and "(n, symbol) \<in> set (di_symbols docInfo)"
  shows "\<lparr>ci_label = sym_name symbol,
          ci_kind = Some (if sym_kind symbol = SK_Function then CK_Function
                          else if sym_kind symbol = SK_Variable then CK_Variable
                          else CK_Class),
          ci_detail = Some ((case sym_type symbol of Some ty \<Rightarrow> ty | None \<Rightarrow> ''undefined'')
                            @ '': '' @ sym_name symbol)\<rparr>
         \<in> set (onCompletion store uri cursor)"
proof -
  from assms(2) have "symbol \<in> set (map snd (di_symbols docInfo))" by force
  with assms(1) show ?thesis
    unfolding onCompletion_def by (simp add: image_iff) blast
qed

text \<open>
  Claim C9. For every store, document and cursor position the completion result contains
  an item for each fixed keyword, builtin function and system module and for each Symbol of
  the document's table; every item carries a kind and a detail string; the result has
  exactly as many items as the three fixed lists and the table together, hence at least as
  many as the three fixed lists; and it does not depend on the cursor position.
\<close>

theorem completion_items:
  "(\<forall>k \<in> set KEYWORDS.
      \<lparr>ci_label = k, ci_kind = Some CK_Keyword,
       ci_detail = Some (''Asteroid keyword: '' @ k)\<rparr> \<in> set (onCompletion store uri cursor)) \<and>
   (\<forall>f \<in> set BUILTIN_FUNCTIONS.
      \<lparr>ci_label = f, ci_kind = Some CK_Function,
       ci_detail = Some (''Built-in function: '' @ f)\<rparr> \<in> set (onCompletion store uri cursor)) \<and>
   (\<forall>m \<in> set SYSTEM_MODULES.
      \<lparr>ci_label = m, ci_kind = Some CK_Module,
       ci_detail = Some (''System module: '' @ m)\<rparr> \<in> set (onCompletion store uri cursor)) \<and>
   (\<forall>docInfo. store uri = Some docInfo \<longrightarrow>
      (\<forall>(n, symbol) \<in> set (di_symbols docInfo).
         \<lparr>ci_label = sym_name symbol,
          ci_kind = Some (if sym_kind symbol = SK_Function then CK_Function
                          else if sym_kind symbol = SK_Variable then CK_Variable
                          else CK_Class),
          ci_detail = Some ((case sym_type symbol of Some ty \<Rightarrow> ty | None \<Rightarrow> ''undefined'')
                            @ '': '' @ sym_name symbol)\<rparr>
         \<in> set (onCompletion store uri cursor))) \<and>
   (\<forall>item \<in> set (onCompletion store uri cursor). ci_kind item \<noteq> None \<and> ci_detail item \<noteq> None) \<and>
   length (onCompletion store uri cursor) =
     length KEYWORDS + length BUILTIN_FUNCTIONS + length SYSTEM_MODULES +
     (case store uri of None \<Rightarrow> 0 | Some docInfo \<Rightarrow> length (di_symbols docInfo)) \<and>
   length KEYWORDS + length BUILTIN_FUNCTIONS + length SYSTEM_MODULES
     \<le> length (onCompletion store uri cursor) \<and>
   onCompletion store uri cursor = onCompletion store uri cursor'"
proof (intro conjI)
  show "\<forall>docInfo. store uri = Some docInfo \<longrightarrow>
      (\<forall>(n, symbol) \<in> set (di_symbols docInfo).
         \<lparr>ci_label = sym_name symbol,
          ci_kind = Some (if sym_kind symbol = SK_Function then CK_Function
                          else if sym_kind symbol = SK_Variable then CK_Variable
                          else CK_Class),
          ci_detail = Some ((case sym_type symbol of Some ty \<Rightarrow> ty | None \<Rightarrow> ''undefined'')
                            @ '': '' @ sym_name symbol)\<rparr>
         \<in> set (onCompletion store uri cursor))"
    using symbol_item_in_completion [of store uri] by blast
qed (auto simp add: onCompletion_def split: option.splits)

theorem completion_items_witness:
  "''let'' \<in> set KEYWORDS \<and>
   \<lparr>ci_label = ''let'', ci_kind = Some CK_Keyword, ci_detail = Some ''Asteroid keyword: let''\<rparr>
     \<in> set (onCompletion [''file:///a.ast'' \<mapsto> parse (tokenize ''let x = 1'')] ''file:///a.ast''
               \<lparr>pos_line = 0, pos_character = 3\<rparr>) \<and>
   length (onCompletion [''file:///a.ast'' \<mapsto> parse (tokenize ''let x = 1'')] ''file:///a.ast''
               \<lparr>pos_line = 0, pos_character = 3\<rparr>) = 92"
proof -
  have k: "''let'' \<in> set KEYWORDS" by (simp add: KEYWORDS_def)
  have d: "di_symbols (parse (tokenize ''let x = 1'')) =
    [(''x'', \<lparr>sym_name = ''x'', sym_kind = SK_Variable,
       sym_range = \<lparr>range_start = \<lparr>pos_line = 0, pos_character = 0\<rparr>,
                    range_end = \<lparr>pos_line = 0, pos_character = 5\<rparr>\<rparr>,
       sym_selectionRange = \<lparr>range_start = \<lparr>pos_line = 0, pos_character = 0\<rparr>,
                    range_end = \<lparr>pos_line = 0, pos_character = 5\<rparr>\<rparr>,
       sym_detail = None, sym_type = Some ''variable''\<rparr>)]"
    by code_simp
  have l: "length KEYWORDS + length BUILTIN_FUNCTIONS + length SYSTEM_MODULES = 91"
    by (simp add: KEYWORDS_def BUILTIN_FUNCTIONS_def SYSTEM_MODULES_def)
  from completion_items [of "[''file:///a.ast'' \<mapsto> parse (tokenize ''let x = 1'')]"
      "''file:///a.ast''" "\<lparr>pos_line = 0, pos_character = 3\<rparr>"] k d l
  show ?thesis by simp
qed

section \<open>Word resolution\<close>

lemma find_start_le: "find_start ln n \<le> n"
  by (induction n) (auto intro: le_SucI)

lemma find_start_run: "find_start ln n \<le> i \<Longrightarrow> i < n \<Longrightarrow> is_word_char (ln ! i)"
proof (induction n)
  case 0
  then show ?case by simp
next
  case (Suc n)
  show ?case
  proof (cases "is_word_char (ln ! n)")
    case True
    with Suc show ?thesis by (cases "i = n") auto
  next
    case False
    with Suc.prems show ?thesis by simp
  qed
qed

lemma find_start_maximal:
  "find_start ln n = 0 \<or> \<not> is_word_char (ln ! (find_start ln n - 1))"
  by (induction n) auto

lemma find_end_ge: "e \<le> find_end ln e"
proof (induction ln e rule: find_end.induct)
  case (1 ln e)
  then show ?case
    by (cases "e < length ln \<and> is_word_char (ln ! e)")
       (auto simp add: find_end.simps [of ln e] dest: Suc_leD)
qed

lemma find_end_le: "e \<le> length ln \<Longrightarrow> find_end ln e \<le> length ln"
proof (induction ln e rule: find_end.induct)
  case (1 ln e)
  then show ?case
    by (cases "e < length ln \<and> is_word_char (ln ! e)")
       (auto simp add: find_end.simps [of ln e])
qed

lemma find_end_run: "e \<le> i \<Longrightarrow> i < find_end ln e \<Longrightarrow> is_word_char (ln ! i)"
proof (induction ln e rule: find_end.induct)
  case (1 ln e)
  show ?case
  proof (cases "e < length ln \<and> is_word_char (ln ! e)")
    case True
    with "1" show ?thesis
      by (cases "i = e") (auto simp add: find_end.simps [of ln e])
  next
    case False
    with "1.prems" show ?thesis by (simp add: find_end.simps [of ln e])
  qed
qed

lemma find_end_maximal:
  "e \<le> length ln \<Longrightarrow> find_end ln e = length ln \<or> \<not> is_word_char (ln ! find_end ln e)"
proof (induction ln e rule: find_end.induct)
  case (1 ln e)
  then show ?case
    by (cases "e < length ln \<and> is_word_char (ln ! e)")
       (auto simp add: find_end.simps [of ln e])
qed

lemma find_end_gt: "e < length ln \<Longrightarrow> is_word_char (ln ! e) \<Longrightarrow> e < find_end ln e"
  using find_end_ge [of "Suc e" ln] by (simp add: find_end.simps [of ln e])

text \<open>
  Claim C7. For every line and every character offset inside the line whose character is
  in the class \<^verbatim>\<open>[A-Za-z0-9_]\<close>, \<open>getWordRangeAtPosition\<close> returns the maximal contiguous
  run of such characters that contains the offset: the run contains the offset, consists of
  word characters only, and cannot be extended to the left or to the right. The word looked
  up by hover and definition is the text of that run, so inside \<^verbatim>\<open>factorial123\<close> it is
  the whole identifier at every offset.
\<close>

theorem word_range_maximal:
  assumes "0 \<le> character" and "nat character < length ln"
    and "is_word_char (ln ! nat character)"
  shows "\<exists>wstart wend.
    getWordRangeAtPosition ln character = Some (wstart, wend) \<and>
    word_at ln character = Some (take (wend - wstart) (drop wstart ln)) \<and>
    wstart \<le> nat character \<and> nat character < wend \<and> wend \<le> length ln \<and>
    (\<forall>i. wstart \<le> i \<and> i < wend \<longrightarrow> is_word_char (ln ! i)) \<and>
    (wstart = 0 \<or> \<not> is_word_char (ln ! (wstart - 1))) \<and>
    (wend = length ln \<or> \<not> is_word_char (ln ! wend))"
proof -
  let ?c = "nat character"
  let ?s = "find_start ln ?c" and ?e = "find_end ln ?c"
  have s: "?s \<le> ?c" by (rule find_start_le)
  have e: "?c < ?e" using assms by (simp add: find_end_gt)
  have el: "?e \<le> length ln" using assms by (simp add: find_end_le)
  have r: "getWordRangeAtPosition ln character = Some (?s, ?e)"
    using assms s e by (auto simp add: getWordRangeAtPosition_def Let_def)
  have run: "\<forall>i. ?s \<le> i \<and> i < ?e \<longrightarrow> is_word_char (ln ! i)"
  proof (intro allI impI)
    fix i assume "?s \<le> i \<and> i < ?e"
    then show "is_word_char (ln ! i)"
      using find_start_run [of ln ?c i] find_end_run [of ?c i ln]
      by (cases "i < ?c") auto
  qed
  have ms: "?s = 0 \<or> \<not> is_word_char (ln ! (?s - 1))" by (rule find_start_maximal)
  have me: "?e = length ln \<or> \<not> is_word_char (ln ! ?e)"
    using assms by (simp add: find_end_maximal)
  from r s e el run ms me show ?thesis
    by (simp add: word_at_def)
qed

theorem word_range_maximal_witness:
  "(0::int) \<le> 9 \<and> nat 9 < length ''let factorial123 = 1'' \<and>
   is_word_char (''let factorial123 = 1'' ! nat 9) \<and>
   getWordRangeAtPosition ''let factorial123 = 1'' 9 = Some (4, 16) \<and>
   word_at ''let factorial123 = 1'' 9 = Some ''factorial123'' \<and>
   list_all (\<lambda>c. word_at ''let factorial123 = 1'' (int c) = Some ''factorial123'') [4..<16]"
proof -
  have h: "(0::int) \<le> 9" "nat 9 < length ''let factorial123 = 1''"
    "is_word_char (''let factorial123 = 1'' ! nat 9)"
    by (simp_all add: is_word_char_def is_letter_def is_digit_def)
  have v: "getWordRangeAtPosition ''let factorial123 = 1'' 9 = Some (4, 16)"
    "word_at ''let factorial123 = 1'' 9 = Some ''factorial123''"
    "list_all (\<lambda>c. word_at ''let factorial123 = 1'' (int c) = Some ''factorial123'') [4..<16]"
    by code_simp+
  from word_range_maximal [OF h] h v show ?thesis by simp
qed

section \<open>The extractor and the recognised declarations\<close>

lemma upt_two: "[p..<Suc (Suc p)] = [p, Suc p]"
  by (simp add: upt_rec)

lemma upt_three: "[p..<Suc (Suc (Suc p))] = [p, Suc p, Suc (Suc p)]"
  by (simp add: upt_rec)

lemma skip_effect:
  assumes "p < length toks"
    and "tok_type (toks ! p) = KEYWORD \<longrightarrow>
         tok_value (toks ! p) \<notin> set [''load'', ''function'', ''let'', ''struct'', ''data'']"
  shows "step_effect toks p (Suc p) info info"
  using assms by (auto simp add: step_effect_def declaration_at_def load_at_def)

lemma parseFunction_effect:
  assumes "p < length toks" and "tok_type (toks ! p) = KEYWORD"
    and "tok_value (toks ! p) = ''function''"
  shows "step_effect toks p (fst (parseFunction toks p info)) info (snd (parseFunction toks p info))"
proof (cases "Suc p < length toks \<and> tok_type (toks ! Suc p) = IDENTIFIER")
  case True
  with assms show ?thesis
    by (simp add: step_effect_def parseFunction_def parser_advance_def parser_peek_def
        declaration_at_def load_at_def Let_def upt_two record_symbol_def)
next
  case False
  with assms show ?thesis
    by (auto simp add: step_effect_def parseFunction_def parser_advance_def parser_peek_def
        declaration_at_def load_at_def Let_def)
qed

lemma parseVariable_effect:
  assumes "p < length toks" and "tok_type (toks ! p) = KEYWORD"
    and "tok_value (toks ! p) = ''let''"
  shows "step_effect toks p (fst (parseVariable toks p info)) info (snd (parseVariable toks p info))"
proof (cases "Suc p < length toks \<and> tok_type (toks ! Suc p) = IDENTIFIER")
  case True
  with assms show ?thesis
    by (simp add: step_effect_def parseVariable_def parser_advance_def parser_peek_def
        declaration_at_def load_at_def Let_def upt_two record_symbol_def)
next
  case False
  with assms show ?thesis
    by (auto simp add: step_effect_def parseVariable_def parser_advance_def parser_peek_def
        declaration_at_def load_at_def Let_def)
qed

lemma parseStruct_effect:
  assumes "p < length toks" and "tok_type (toks ! p) = KEYWORD"
    and "tok_value (toks ! p) = ''struct'' \<or> tok_value (toks ! p) = ''data''"
  shows "step_effect toks p (fst (parseStruct toks p info)) info (snd (parseStruct toks p info))"
proof (cases "Suc p < length toks \<and> tok_type (toks ! Suc p) = IDENTIFIER")
  case True
  with assms show ?thesis
    by (auto simp add: step_effect_def parseStruct_def parser_advance_def parser_peek_def
        declaration_at_def load_at_def Let_def upt_two record_symbol_def)
next
  case False
  with assms show ?thesis
    by (auto simp add: step_effect_def parseStruct_def parser_advance_def parser_peek_def
        declaration_at_def load_at_def Let_def)
qed

lemma parseLoad_effect:
  assumes "p < length toks" and "tok_type (toks ! p) = KEYWORD"
    and "tok_value (toks ! p) = ''load''"
  shows "step_effect toks p (fst (parseLoad toks p info)) info (snd (parseLoad toks p info))"
proof (cases "Suc p < length toks \<and> tok_type (toks ! Suc p) = KEYWORD \<and>
    tok_value (toks ! Suc p) = ''system''")
  case sys: True
  show ?thesis
  proof (cases "Suc (Suc p) < length toks \<and> tok_type (toks ! Suc (Suc p)) = IDENTIFIER")
    case True
    with assms sys show ?thesis
      by (simp add: step_effect_def parseLoad_def parser_advance_def parser_peek_def
          declaration_at_def load_at_def Let_def upt_three)
  next
    case False
    with assms sys show ?thesis
      by (auto simp add: step_effect_def parseLoad_def parser_advance_def parser_peek_def
          declaration_at_def load_at_def Let_def upt_two)
  qed
next
  case False
  with assms show ?thesis
    by (auto simp add: step_effect_def parseLoad_def parser_advance_def parser_peek_def
        declaration_at_def load_at_def Let_def)
qed

lemma parse_step_effect:
  assumes "p < length toks"
  shows "\<exists>r. parse_step toks p info = Some r \<and> step_effect toks p (fst r) info (snd r)"
proof (cases "tok_type (toks ! p) = KEYWORD")
  case False
  with assms skip_effect [of p toks info] show ?thesis
    by (simp add: parse_step_def parser_peek_def parser_advance_def)
next
  case kw: True
  consider (load) "tok_value (toks ! p) = ''load''"
    | (func) "tok_value (toks ! p) = ''function''"
    | (var) "tok_value (toks ! p) = ''let''"
    | (struct) "tok_value (toks ! p) = ''struct'' \<or> tok_value (toks ! p) = ''data''"
    | (other) "tok_value (toks ! p) \<notin> set [''load'', ''function'', ''let'', ''struct'', ''data'']"
    by auto
  then show ?thesis
  proof cases
    case load
    with assms kw parseLoad_effect [of p toks info] show ?thesis
      by (simp add: parse_step_def parser_peek_def)
  next
    case func
    with assms kw parseFunction_effect [of p toks info] show ?thesis
      by (simp add: parse_step_def parser_peek_def)
  next
    case var
    with assms kw parseVariable_effect [of p toks info] show ?thesis
      by (simp add: parse_step_def parser_peek_def)
  next
    case struct
    with assms kw parseStruct_effect [of p toks info] show ?thesis
      by (intro exI [of _ "parseStruct toks p info"])
         (auto simp add: parse_step_def parser_peek_def)
  next
    case other
    with assms kw skip_effect [of p toks info] show ?thesis
      by (simp add: parse_step_def parser_peek_def parser_advance_def)
  qed
qed


lemma upt_split: "p \<le> p' \<Longrightarrow> p' \<le> n \<Longrightarrow> [p..<n] = [p..<p'] @ [p'..<n]"
  using upt_add_eq_append [of p p' "n - p'"] by simp

lemma map_filter_append: "List.map_filter f (xs @ ys) = List.map_filter f xs @ List.map_filter f ys"
  by (simp add: List.map_filter_def)

lemma parse_loop_effect:
  "di_symbols (parse_loop toks p info) =
     fold record_symbol (declarations_from toks p) (di_symbols info) \<and>
   di_functions (parse_loop toks p info) =
     fold record_symbol (filter (\<lambda>s. sym_kind s = SK_Function) (declarations_from toks p))
       (di_functions info) \<and>
   di_variables (parse_loop toks p info) =
     fold record_symbol (filter (\<lambda>s. sym_kind s = SK_Variable) (declarations_from toks p))
       (di_variables info) \<and>
   di_imports (parse_loop toks p info) = di_imports info @ loads_from toks p"
proof (induction toks p info rule: parse_loop.induct)
  case (1 toks p info)
  show ?case
  proof (cases "p < length toks")
    case False
    then show ?thesis
      by (simp add: parse_loop.simps [of toks p] declarations_from_def loads_from_def)
  next
    case True
    from parse_step_effect [OF True, of info] obtain p' info'
      where st: "parse_step toks p info = Some (p', info')"
        and eff: "step_effect toks p p' info info'"
      by auto
    from eff have le: "p \<le> p'" "p' \<le> length toks" by (simp_all add: step_effect_def)
    have loop: "parse_loop toks p info = parse_loop toks p' info'"
      using True st by (simp add: parse_loop.simps [of toks p])
    have d: "declarations_from toks p =
        List.map_filter (declaration_at toks) [p..<p'] @ declarations_from toks p'"
      by (simp add: declarations_from_def upt_split [OF le] map_filter_append)
    have l: "loads_from toks p = List.map_filter (load_at toks) [p..<p'] @ loads_from toks p'"
      by (simp add: loads_from_def upt_split [OF le] map_filter_append)
    from "1.IH" [OF True st refl] eff show ?thesis
      unfolding loop d l by (simp add: step_effect_def)
  qed
qed

lemma map_of_record_symbol:
  "map_of (record_symbol d table) n = (if sym_name d = n then Some d else map_of table n)"
  by (simp add: record_symbol_def update_conv')

lemma map_of_fold_record_symbol:
  "map_of (fold record_symbol ds table) n =
    (case last_option (filter (\<lambda>s. sym_name s = n) ds) of
       None \<Rightarrow> map_of table n
     | Some s \<Rightarrow> Some s)"
proof (induction ds arbitrary: table)
  case Nil
  show ?case by (simp add: last_option_def)
next
  case (Cons d ds)
  from Cons.IH [of "record_symbol d table"] show ?case
    by (simp add: map_of_record_symbol last_option_def)
qed

lemma map_of_fold_record_symbol_empty:
  "map_of (fold record_symbol ds []) n = last_option (filter (\<lambda>s. sym_name s = n) ds)"
  by (cases "last_option (filter (\<lambda>s. sym_name s = n) ds)")
     (simp_all add: map_of_fold_record_symbol)

lemma filter_name_kind:
  "filter (\<lambda>s. sym_name s = n \<and> sym_kind s = k) ds =
   filter (\<lambda>s. sym_name s = n) (filter (\<lambda>s. sym_kind s = k) ds)"
  by (simp add: conj_commute)

lemma distinct_fold_record_symbol:
  "distinct (map fst table) \<Longrightarrow> distinct (map fst (fold record_symbol ds table))"
  by (induction ds arbitrary: table) (simp_all add: record_symbol_def distinct_update)

lemma last_filter_filter:
  assumes "filter P xs \<noteq> []" and "Q (last (filter P xs))"
  shows "filter P (filter Q xs) \<noteq> [] \<and> last (filter P (filter Q xs)) = last (filter P xs)"
  using assms
proof (induction xs rule: rev_induct)
  case Nil
  then show ?case by simp
next
  case (snoc x xs)
  then show ?case by (cases "P x") auto
qed

lemma parse_symbols:
  "map_of (di_symbols (parse toks)) n =
     last_option (filter (\<lambda>s. sym_name s = n) (declarations toks))"
  using parse_loop_effect [of toks 0]
  by (simp add: parse_def declarations_def map_of_fold_record_symbol_empty)

lemma parse_functions:
  "map_of (di_functions (parse toks)) n =
     last_option (filter (\<lambda>s. sym_name s = n \<and> sym_kind s = SK_Function) (declarations toks))"
  unfolding filter_name_kind using parse_loop_effect [of toks 0]
  by (simp add: parse_def declarations_def map_of_fold_record_symbol_empty)

lemma parse_variables:
  "map_of (di_variables (parse toks)) n =
     last_option (filter (\<lambda>s. sym_name s = n \<and> sym_kind s = SK_Variable) (declarations toks))"
  unfolding filter_name_kind using parse_loop_effect [of toks 0]
  by (simp add: parse_def declarations_def map_of_fold_record_symbol_empty)

lemma parse_distinct: "distinct (map fst (di_symbols (parse toks)))"
  using parse_loop_effect [of toks 0]
  by (simp add: parse_def distinct_fold_record_symbol)

lemma submap_entry:
  assumes "last_option (filter (\<lambda>s. sym_name s = n \<and> sym_kind s = k) ds) = Some s"
  shows "\<exists>s'. last_option (filter (\<lambda>s. sym_name s = n) ds) = Some s' \<and> (sym_kind s' = k \<longrightarrow> s' = s)"
proof -
  note eq = filter_name_kind [of n k ds]
  from assms have ne: "filter (\<lambda>s. sym_name s = n) (filter (\<lambda>s. sym_kind s = k) ds) \<noteq> []"
    and s: "s = last (filter (\<lambda>s. sym_name s = n) (filter (\<lambda>s. sym_kind s = k) ds))"
    unfolding eq by (auto simp add: last_option_def split: if_splits)
  have ne': "filter (\<lambda>s. sym_name s = n) ds \<noteq> []"
  proof
    assume "filter (\<lambda>s. sym_name s = n) ds = []"
    then have "\<forall>x \<in> set ds. sym_name x \<noteq> n" by (simp add: filter_empty_conv)
    then have "filter (\<lambda>s. sym_name s = n) (filter (\<lambda>s. sym_kind s = k) ds) = []"
      by (simp add: filter_empty_conv)
    with ne show False by simp
  qed
  show ?thesis
    using ne' s last_filter_filter [of "\<lambda>s. sym_name s = n" ds "\<lambda>s. sym_kind s = k"]
    by (auto simp add: last_option_def)
qed

text \<open>
  Claim C4, as the code has it. In the DocumentInfo produced by extraction, the functions
  (resp. variables) sub-map holds for each name the Symbol of the last \<^verbatim>\<open>function\<close> (resp.
  \<^verbatim>\<open>let\<close>) declaration of that name. Every name present in a sub-map is also present in
  the main table, and it maps to the same Symbol there whenever the main table's entry is
  of the sub-map's kind. Nothing removes a sub-map entry when a later declaration of
  another kind takes the name over in the main table.
\<close>

theorem submaps_hold_last_declaration_of_their_kind:
  "map_of (di_functions (parse toks)) n =
     last_option (filter (\<lambda>s. sym_name s = n \<and> sym_kind s = SK_Function) (declarations toks)) \<and>
   map_of (di_variables (parse toks)) n =
     last_option (filter (\<lambda>s. sym_name s = n \<and> sym_kind s = SK_Variable) (declarations toks)) \<and>
   (\<forall>s. map_of (di_functions (parse toks)) n = Some s \<longrightarrow>
      (\<exists>s'. map_of (di_symbols (parse toks)) n = Some s' \<and>
            (sym_kind s' = SK_Function \<longrightarrow> s' = s))) \<and>
   (\<forall>s. map_of (di_variables (parse toks)) n = Some s \<longrightarrow>
      (\<exists>s'. map_of (di_symbols (parse toks)) n = Some s' \<and>
            (sym_kind s' = SK_Variable \<longrightarrow> s' = s)))"
  using submap_entry [of n SK_Function "declarations toks"]
    submap_entry [of n SK_Variable "declarations toks"]
  by (simp add: parse_functions parse_variables parse_symbols)

text \<open>
  The claim as stated fails: after \<^verbatim>\<open>let x\<close> followed by \<^verbatim>\<open>function x\<close> the variables
  sub-map still maps \<^verbatim>\<open>x\<close> to the Variable symbol while the main table maps it to the
  Function symbol.
\<close>

theorem submap_stale_counterexample:
  "map_of (di_variables (parse (tokenize ''let x function x''))) ''x'' =
     Some \<lparr>sym_name = ''x'', sym_kind = SK_Variable,
           sym_range = \<lparr>range_start = \<lparr>pos_line = 0, pos_character = 0\<rparr>,
                        range_end = \<lparr>pos_line = 0, pos_character = 5\<rparr>\<rparr>,
           sym_selectionRange = \<lparr>range_start = \<lparr>pos_line = 0, pos_character = 0\<rparr>,
                        range_end = \<lparr>pos_line = 0, pos_character = 5\<rparr>\<rparr>,
           sym_detail = None, sym_type = Some ''variable''\<rparr> \<and>
   map_of (di_symbols (parse (tokenize ''let x function x''))) ''x'' =
     Some \<lparr>sym_name = ''x'', sym_kind = SK_Function,
           sym_range = \<lparr>range_start = \<lparr>pos_line = 0, pos_character = 6\<rparr>,
                        range_end = \<lparr>pos_line = 0, pos_character = 16\<rparr>\<rparr>,
           sym_selectionRange = \<lparr>range_start = \<lparr>pos_line = 0, pos_character = 6\<rparr>,
                        range_end = \<lparr>pos_line = 0, pos_character = 16\<rparr>\<rparr>,
           sym_detail = None, sym_type = Some ''function''\<rparr>"
  by code_simp


theorem submaps_witness:
  "map_of (di_variables (parse (tokenize ''let x function x''))) ''x'' \<noteq> None \<and>
   (\<exists>s'. map_of (di_symbols (parse (tokenize ''let x function x''))) ''x'' = Some s' \<and>
         sym_kind s' \<noteq> SK_Variable) \<and>
   (\<exists>s. map_of (di_functions (parse (tokenize ''let x function x''))) ''x'' = Some s \<and>
        map_of (di_symbols (parse (tokenize ''let x function x''))) ''x'' = Some s)"
proof -
  have v: "map_of (di_variables (parse (tokenize ''let x function x''))) ''x'' \<noteq> None"
    by code_simp
  have k: "map_option sym_kind (map_of (di_symbols (parse (tokenize ''let x function x''))) ''x'')
      = Some SK_Function"
    by code_simp
  have f: "map_of (di_functions (parse (tokenize ''let x function x''))) ''x'' \<noteq> None"
    by code_simp
  from submaps_hold_last_declaration_of_their_kind [of "tokenize ''let x function x''" "''x''"]
    v k f
  show ?thesis by auto
qed

lemma parse_symbols_key:
  assumes "(k, s) \<in> set (di_symbols (parse toks))"
  shows "sym_name s = k \<and> s \<in> set (declarations toks)"
proof -
  from assms parse_distinct [of toks] have "map_of (di_symbols (parse toks)) k = Some s"
    by simp
  then have l: "last_option (filter (\<lambda>s. sym_name s = k) (declarations toks)) = Some s"
    by (simp add: parse_symbols)
  then have ne: "filter (\<lambda>s. sym_name s = k) (declarations toks) \<noteq> []"
    and "s = last (filter (\<lambda>s. sym_name s = k) (declarations toks))"
    by (auto simp add: last_option_def split: if_splits)
  with last_in_set [OF ne] have "s \<in> set (filter (\<lambda>s. sym_name s = k) (declarations toks))"
    by simp
  then show ?thesis by simp
qed

text \<open>
  Claim C5. For every token sequence the main symbol table has at most one entry per name,
  each entry is stored under its Symbol's own name, and the entry for a name is the Symbol
  built from the last recognised declaration of that name, whatever the kinds of the
  declarations. For \<^verbatim>\<open>let x = 1\<close> followed by \<^verbatim>\<open>let x = 2\<close> on the next line the table
  is the single entry for \<^verbatim>\<open>x\<close> with the range of the second declaration.
\<close>

theorem symbol_table_last_declaration_wins:
  "distinct (map fst (di_symbols (parse toks))) \<and>
   (\<forall>(k, s) \<in> set (di_symbols (parse toks)). sym_name s = k) \<and>
   map_of (di_symbols (parse toks)) n =
     last_option (filter (\<lambda>s. sym_name s = n) (declarations toks))"
  using parse_symbols_key [of _ _ toks]
  by (auto simp add: parse_distinct parse_symbols)

theorem symbol_table_last_declaration_wins_witness:
  "di_symbols (parse (tokenize ''let x = 1\<newline>let x = 2'')) =
     [(''x'', \<lparr>sym_name = ''x'', sym_kind = SK_Variable,
        sym_range = \<lparr>range_start = \<lparr>pos_line = 1, pos_character = 0\<rparr>,
                     range_end = \<lparr>pos_line = 1, pos_character = 5\<rparr>\<rparr>,
        sym_selectionRange = \<lparr>range_start = \<lparr>pos_line = 1, pos_character = 0\<rparr>,
                     range_end = \<lparr>pos_line = 1, pos_character = 5\<rparr>\<rparr>,
        sym_detail = None, sym_type = Some ''variable''\<rparr>)] \<and>
   length (filter (\<lambda>s. sym_name s = ''x'') (declarations (tokenize ''let x = 1\<newline>let x = 2''))) = 2 \<and>
   map_of (di_symbols (parse (tokenize ''let x = 1\<newline>let x = 2''))) ''x'' =
     last_option (filter (\<lambda>s. sym_name s = ''x'')
       (declarations (tokenize ''let x = 1\<newline>let x = 2'')))"
proof -
  have a: "di_symbols (parse (tokenize ''let x = 1\<newline>let x = 2'')) =
     [(''x'', \<lparr>sym_name = ''x'', sym_kind = SK_Variable,
        sym_range = \<lparr>range_start = \<lparr>pos_line = 1, pos_character = 0\<rparr>,
                     range_end = \<lparr>pos_line = 1, pos_character = 5\<rparr>\<rparr>,
        sym_selectionRange = \<lparr>range_start = \<lparr>pos_line = 1, pos_character = 0\<rparr>,
                     range_end = \<lparr>pos_line = 1, pos_character = 5\<rparr>\<rparr>,
        sym_detail = None, sym_type = Some ''variable''\<rparr>)]"
    by code_simp
  have b: "length (filter (\<lambda>s. sym_name s = ''x'')
      (declarations (tokenize ''let x = 1\<newline>let x = 2''))) = 2"
    by code_simp
  from symbol_table_last_declaration_wins [of "tokenize ''let x = 1\<newline>let x = 2''" "''x''"] a b
  show ?thesis by simp
qed

lemma declarations_mem:
  "s \<in> set (declarations toks) \<Longrightarrow> \<exists>i. declaration_at toks i = Some s"
  by (auto simp add: declarations_def declarations_from_def List.map_filter_def)

lemma declaration_at_SomeD:
  assumes "declaration_at toks j = Some s"
  shows "Suc j < length toks \<and> tok_type (toks ! j) = KEYWORD \<and>
     tok_value (toks ! j) \<in> set [''function'', ''let'', ''struct'', ''data''] \<and>
     tok_type (toks ! Suc j) = IDENTIFIER \<and>
     sym_name s = tok_value (toks ! Suc j) \<and>
     sym_range s =
       \<lparr>range_start = \<lparr>pos_line = tok_line (toks ! j), pos_character = tok_column (toks ! j)\<rparr>,
        range_end = \<lparr>pos_line = tok_line (toks ! Suc j),
          pos_character = tok_column (toks ! Suc j) + length (tok_value (toks ! Suc j))\<rparr>\<rparr> \<and>
     sym_selectionRange s = sym_range s"
  using assms unfolding declaration_at_def Let_def
  by (auto split: if_splits)

lemma declarations_take:
  assumes "Suc i < length toks" and "tok_type (toks ! i) = KEYWORD"
    and "tok_value (toks ! i) \<in> set [''function'', ''let'', ''struct'', ''data'']"
    and "tok_type (toks ! Suc i) = IDENTIFIER"
  shows "\<exists>s. declaration_at (take (Suc (Suc i)) toks) i = Some s \<and>
     declarations (take (Suc (Suc i)) toks) =
       List.map_filter (declaration_at (take (Suc (Suc i)) toks)) [0..<i] @ [s]"
proof -
  let ?t = "take (Suc (Suc i)) toks"
  from assms(1) have len: "length ?t = Suc (Suc i)" by simp
  have n: "declaration_at ?t (Suc i) = None"
    by (simp add: declaration_at_def len)
  from assms have "declaration_at ?t i \<noteq> None"
    by (simp add: declaration_at_def len Let_def)
  then obtain s where s: "declaration_at ?t i = Some s" by auto
  have "declarations ?t = List.map_filter (declaration_at ?t) ([0..<i] @ [i, Suc i])"
    unfolding declarations_def declarations_from_def len by simp
  with s n show ?thesis by (simp add: map_filter_append)
qed

lemma map_filter_snoc:
  "List.map_filter f (xs @ [x]) =
   List.map_filter f xs @ (case f x of None \<Rightarrow> [] | Some y \<Rightarrow> [y])"
  by (cases "f x") (simp_all add: List.map_filter_def)

lemma last_option_filter_map_filter_upt:
  "last_option (filter P (List.map_filter f [0..<n])) = Some s \<Longrightarrow>
   \<exists>j<n. f j = Some s \<and> P s \<and> (\<forall>k s'. j < k \<and> k < n \<and> f k = Some s' \<longrightarrow> \<not> P s')"
proof (induction n)
  case 0
  then show ?case by (simp add: last_option_def)
next
  case (Suc n)
  show ?case
  proof (cases "\<exists>y. f n = Some y \<and> P y")
    case True
    then obtain y where y: "f n = Some y" "P y" by blast
    with Suc.prems have "s = y"
      by (simp add: map_filter_snoc last_option_def)
    with y show ?thesis by (intro exI [of _ n]) auto
  next
    case False
    then have "filter P (List.map_filter f [0..<Suc n]) = filter P (List.map_filter f [0..<n])"
      by (cases "f n") (auto simp add: map_filter_snoc)
    with Suc.prems have "last_option (filter P (List.map_filter f [0..<n])) = Some s" by simp
    from Suc.IH [OF this] obtain j where j: "j < n" "f j = Some s" "P s"
      and m: "\<forall>k s'. j < k \<and> k < n \<and> f k = Some s' \<longrightarrow> \<not> P s'"
      by blast
    have "\<forall>k s'. j < k \<and> k < Suc n \<and> f k = Some s' \<longrightarrow> \<not> P s'"
    proof (intro allI impI)
      fix k s' assume a: "j < k \<and> k < Suc n \<and> f k = Some s'"
      show "\<not> P s'"
      proof (cases "k = n")
        case True
        with a False show ?thesis by auto
      next
        case False
        with a m show ?thesis by (auto simp add: less_Suc_eq)
      qed
    qed
    with j show ?thesis by (intro exI [of _ j]) auto
  qed
qed

lemma last_option_filter_map_filter_upt_ex:
  assumes "i < n" and "f i = Some s0" and "P s0"
  shows "\<exists>s. last_option (filter P (List.map_filter f [0..<n])) = Some s"
proof -
  from assms have "s0 \<in> set (filter P (List.map_filter f [0..<n]))"
    by (force simp add: List.map_filter_def)
  then have "filter P (List.map_filter f [0..<n]) \<noteq> []"
    by (metis empty_iff list.set(1))
  then show ?thesis by (simp add: last_option_def)
qed

lemma declaration_at_recognised:
  assumes "Suc i < length toks" and "tok_type (toks ! i) = KEYWORD"
    and "tok_value (toks ! i) \<in> set [''function'', ''let'', ''struct'', ''data'']"
    and "tok_type (toks ! Suc i) = IDENTIFIER"
  shows "\<exists>s. declaration_at toks i = Some s \<and> sym_name s = tok_value (toks ! Suc i)"
  using assms by (simp add: declaration_at_def Let_def)

lemma stored_declaration:
  assumes "Suc i < length toks" and "tok_type (toks ! i) = KEYWORD"
    and "tok_value (toks ! i) \<in> set [''function'', ''let'', ''struct'', ''data'']"
    and "tok_type (toks ! Suc i) = IDENTIFIER"
  shows "\<exists>j s. i \<le> j \<and> declaration_at toks j = Some s \<and>
      sym_name s = tok_value (toks ! Suc i) \<and>
      (\<forall>k s'. j < k \<and> declaration_at toks k = Some s' \<longrightarrow> sym_name s' \<noteq> tok_value (toks ! Suc i)) \<and>
      map_of (di_symbols (parse toks)) (tok_value (toks ! Suc i)) = Some s"
proof -
  let ?n = "tok_value (toks ! Suc i)"
  let ?P = "\<lambda>s. sym_name s = ?n"
  from declaration_at_recognised [OF assms] obtain s0
    where s0: "declaration_at toks i = Some s0" "sym_name s0 = ?n" by blast
  from assms(1) have i: "i < length toks" by simp
  from last_option_filter_map_filter_upt_ex [of i "length toks" "declaration_at toks" s0 ?P] i s0
  obtain s where l: "last_option (filter ?P (List.map_filter (declaration_at toks) [0..<length toks]))
      = Some s"
    by blast
  from last_option_filter_map_filter_upt [OF l] obtain j where j: "j < length toks"
    "declaration_at toks j = Some s" "sym_name s = ?n"
    and m: "\<forall>k s'. j < k \<and> k < length toks \<and> declaration_at toks k = Some s' \<longrightarrow> \<not> ?P s'"
    by blast
  have ij: "i \<le> j"
  proof (rule ccontr)
    assume "\<not> i \<le> j"
    then have "j < i" by simp
    with m i s0 show False by blast
  qed
  have m': "\<forall>k s'. j < k \<and> declaration_at toks k = Some s' \<longrightarrow> sym_name s' \<noteq> ?n"
  proof (intro allI impI)
    fix k s' assume a: "j < k \<and> declaration_at toks k = Some s'"
    then have "k < length toks" using declaration_at_SomeD [of toks k s'] by simp
    with a m show "sym_name s' \<noteq> ?n" by blast
  qed
  have "map_of (di_symbols (parse toks)) ?n = Some s"
    using l by (simp add: parse_symbols declarations_def declarations_from_def)
  with ij j m' show ?thesis by blast
qed

lemma parse_step_stores_declaration:
  assumes "Suc i < length toks" and "tok_type (toks ! i) = KEYWORD"
    and "tok_value (toks ! i) \<in> set [''function'', ''let'', ''struct'', ''data'']"
    and "tok_type (toks ! Suc i) = IDENTIFIER"
  shows "\<exists>info' s. parse_step toks i info = Some (Suc (Suc i), info') \<and>
      map_of (di_symbols info') (tok_value (toks ! Suc i)) = Some s \<and>
      sym_range s =
        \<lparr>range_start = \<lparr>pos_line = tok_line (toks ! i), pos_character = tok_column (toks ! i)\<rparr>,
         range_end = \<lparr>pos_line = tok_line (toks ! Suc i),
           pos_character = tok_column (toks ! Suc i) + length (tok_value (toks ! Suc i))\<rparr>\<rparr> \<and>
      sym_selectionRange s = sym_range s"
proof -
  from assms(1) have i: "i < length toks" by simp
  from assms(3) consider (func) "tok_value (toks ! i) = ''function''"
    | (var) "tok_value (toks ! i) = ''let''"
    | (struct) "tok_value (toks ! i) = ''struct''"
    | (data) "tok_value (toks ! i) = ''data''"
    by auto
  then show ?thesis
  proof cases
    case func
    with assms i show ?thesis
      by (simp add: parse_step_def parseFunction_def parser_peek_def parser_advance_def Let_def
          update_conv')
  next
    case var
    with assms i show ?thesis
      by (simp add: parse_step_def parseVariable_def parser_peek_def parser_advance_def Let_def
          update_conv')
  next
    case struct
    with assms i show ?thesis
      by (simp add: parse_step_def parseStruct_def parser_peek_def parser_advance_def Let_def
          update_conv')
  next
    case data
    with assms i show ?thesis
      by (simp add: parse_step_def parseStruct_def parser_peek_def parser_advance_def Let_def
          update_conv')
  qed
qed


lemma stored_in_prefix:
  assumes "Suc i < length toks" and "tok_type (toks ! i) = KEYWORD"
    and "tok_value (toks ! i) \<in> set [''function'', ''let'', ''struct'', ''data'']"
    and "tok_type (toks ! Suc i) = IDENTIFIER"
  shows "(\<exists>s. map_of (di_symbols (parse (take (Suc (Suc i)) toks))) (tok_value (toks ! Suc i)) = Some s \<and>
      sym_range s =
        \<lparr>range_start = \<lparr>pos_line = tok_line (toks ! i), pos_character = tok_column (toks ! i)\<rparr>,
         range_end = \<lparr>pos_line = tok_line (toks ! Suc i),
           pos_character = tok_column (toks ! Suc i) + length (tok_value (toks ! Suc i))\<rparr>\<rparr> \<and>
      sym_selectionRange s = sym_range s)"
proof -
  let ?t = "take (Suc (Suc i)) toks"
  from assms obtain s where s: "declaration_at ?t i = Some s"
    and d: "declarations ?t = List.map_filter (declaration_at ?t) [0..<i] @ [s]"
    using declarations_take [of i toks] by blast
  from declaration_at_SomeD [OF s] assms(1)
  have p: "sym_name s = tok_value (toks ! Suc i)"
    "sym_range s =
        \<lparr>range_start = \<lparr>pos_line = tok_line (toks ! i), pos_character = tok_column (toks ! i)\<rparr>,
         range_end = \<lparr>pos_line = tok_line (toks ! Suc i),
           pos_character = tok_column (toks ! Suc i) + length (tok_value (toks ! Suc i))\<rparr>\<rparr>"
    "sym_selectionRange s = sym_range s"
    by simp_all
  have "map_of (di_symbols (parse ?t)) (tok_value (toks ! Suc i)) = Some s"
    unfolding parse_symbols d using p(1) by (simp add: last_option_def)
  with p show ?thesis by blast
qed

lemma stored_in_table:
  assumes "Suc i < length toks" and "tok_type (toks ! i) = KEYWORD"
    and "tok_value (toks ! i) \<in> set [''function'', ''let'', ''struct'', ''data'']"
    and "tok_type (toks ! Suc i) = IDENTIFIER"
  shows "(\<exists>j s. i \<le> j \<and> Suc j < length toks \<and> tok_type (toks ! j) = KEYWORD \<and>
    tok_value (toks ! j) \<in> set [''function'', ''let'', ''struct'', ''data''] \<and>
    tok_type (toks ! Suc j) = IDENTIFIER \<and>
      tok_value (toks ! Suc j) = tok_value (toks ! Suc i) \<and>
      map_of (di_symbols (parse toks)) (tok_value (toks ! Suc i)) = Some s \<and>
      sym_range s =
        \<lparr>range_start = \<lparr>pos_line = tok_line (toks ! j), pos_character = tok_column (toks ! j)\<rparr>,
         range_end = \<lparr>pos_line = tok_line (toks ! Suc j),
           pos_character = tok_column (toks ! Suc j) + length (tok_value (toks ! Suc j))\<rparr>\<rparr> \<and>
      sym_selectionRange s = sym_range s)"
    and "(\<forall>k. i < k \<and> Suc k < length toks \<and> tok_type (toks ! k) = KEYWORD \<and>
    tok_value (toks ! k) \<in> set [''function'', ''let'', ''struct'', ''data''] \<and>
    tok_type (toks ! Suc k) = IDENTIFIER \<longrightarrow>
        tok_value (toks ! Suc k) \<noteq> tok_value (toks ! Suc i)) \<Longrightarrow>
      (\<exists>s. map_of (di_symbols (parse toks)) (tok_value (toks ! Suc i)) = Some s \<and>
      sym_range s =
        \<lparr>range_start = \<lparr>pos_line = tok_line (toks ! i), pos_character = tok_column (toks ! i)\<rparr>,
         range_end = \<lparr>pos_line = tok_line (toks ! Suc i),
           pos_character = tok_column (toks ! Suc i) + length (tok_value (toks ! Suc i))\<rparr>\<rparr> \<and>
      sym_selectionRange s = sym_range s)"
proof -
  from stored_declaration [OF assms] obtain j s where ij: "i \<le> j"
    and j: "declaration_at toks j = Some s"
    and m: "map_of (di_symbols (parse toks)) (tok_value (toks ! Suc i)) = Some s"
    and n: "sym_name s = tok_value (toks ! Suc i)"
    by blast
  note f = declaration_at_SomeD [OF j]
  from f n have nm: "tok_value (toks ! Suc j) = tok_value (toks ! Suc i)" by simp
  from ij f nm m show "(\<exists>j s. i \<le> j \<and> Suc j < length toks \<and> tok_type (toks ! j) = KEYWORD \<and>
    tok_value (toks ! j) \<in> set [''function'', ''let'', ''struct'', ''data''] \<and>
    tok_type (toks ! Suc j) = IDENTIFIER \<and>
      tok_value (toks ! Suc j) = tok_value (toks ! Suc i) \<and>
      map_of (di_symbols (parse toks)) (tok_value (toks ! Suc i)) = Some s \<and>
      sym_range s =
        \<lparr>range_start = \<lparr>pos_line = tok_line (toks ! j), pos_character = tok_column (toks ! j)\<rparr>,
         range_end = \<lparr>pos_line = tok_line (toks ! Suc j),
           pos_character = tok_column (toks ! Suc j) + length (tok_value (toks ! Suc j))\<rparr>\<rparr> \<and>
      sym_selectionRange s = sym_range s)"
    by (intro exI [of _ j] exI [of _ s]) simp
  assume later: "(\<forall>k. i < k \<and> Suc k < length toks \<and> tok_type (toks ! k) = KEYWORD \<and>
    tok_value (toks ! k) \<in> set [''function'', ''let'', ''struct'', ''data''] \<and>
    tok_type (toks ! Suc k) = IDENTIFIER \<longrightarrow>
        tok_value (toks ! Suc k) \<noteq> tok_value (toks ! Suc i))"
  have "j = i"
  proof (rule ccontr)
    assume "j \<noteq> i"
    with ij have "i < j" by simp
    with later [rule_format, of j] f nm show False by simp
  qed
  with f m show "(\<exists>s. map_of (di_symbols (parse toks)) (tok_value (toks ! Suc i)) = Some s \<and>
      sym_range s =
        \<lparr>range_start = \<lparr>pos_line = tok_line (toks ! i), pos_character = tok_column (toks ! i)\<rparr>,
         range_end = \<lparr>pos_line = tok_line (toks ! Suc i),
           pos_character = tok_column (toks ! Suc i) + length (tok_value (toks ! Suc i))\<rparr>\<rparr> \<and>
      sym_selectionRange s = sym_range s)"
    by (intro exI [of _ s]) simp
qed

lemma table_entries_are_declarations:
  "(\<forall>(n, s) \<in> set (di_symbols (parse toks)).
      \<exists>j. Suc j < length toks \<and> tok_type (toks ! j) = KEYWORD \<and>
    tok_value (toks ! j) \<in> set [''function'', ''let'', ''struct'', ''data''] \<and>
    tok_type (toks ! Suc j) = IDENTIFIER \<and>
          n = tok_value (toks ! Suc j) \<and>
          sym_range s =
        \<lparr>range_start = \<lparr>pos_line = tok_line (toks ! j), pos_character = tok_column (toks ! j)\<rparr>,
         range_end = \<lparr>pos_line = tok_line (toks ! Suc j),
           pos_character = tok_column (toks ! Suc j) + length (tok_value (toks ! Suc j))\<rparr>\<rparr> \<and>
          sym_selectionRange s = sym_range s)"
proof (intro ballI, clarify)
  fix n s assume "(n, s) \<in> set (di_symbols (parse toks))"
  from parse_symbols_key [OF this] obtain j where n: "sym_name s = n"
    and j: "declaration_at toks j = Some s"
    by (auto dest: declarations_mem)
  from declaration_at_SomeD [OF j] n
  show "\<exists>j. Suc j < length toks \<and> tok_type (toks ! j) = KEYWORD \<and>
    tok_value (toks ! j) \<in> set [''function'', ''let'', ''struct'', ''data''] \<and>
    tok_type (toks ! Suc j) = IDENTIFIER \<and>
          n = tok_value (toks ! Suc j) \<and>
          sym_range s =
        \<lparr>range_start = \<lparr>pos_line = tok_line (toks ! j), pos_character = tok_column (toks ! j)\<rparr>,
         range_end = \<lparr>pos_line = tok_line (toks ! Suc j),
           pos_character = tok_column (toks ! Suc j) + length (tok_value (toks ! Suc j))\<rparr>\<rparr> \<and>
          sym_selectionRange s = sym_range s"
    by (intro exI [of _ j]) simp
qed

text \<open>
  Claim C6. Whenever a \<^verbatim>\<open>function\<close>, \<^verbatim>\<open>let\<close>, \<^verbatim>\<open>struct\<close> or \<^verbatim>\<open>data\<close> keyword token at
  index \<open>i\<close> of a token sequence is immediately followed by an Identifier token, the
  iteration of the extractor at \<open>i\<close> stores, under the identifier's text, a Symbol whose
  range starts at the keyword token's line and column and ends at the identifier token's
  line and its column plus the length of its text (the selection range is the same). That
  Symbol is the table's entry once the two tokens are processed, and it is the entry of the
  DocumentInfo of the whole sequence unless a later declaration has the same name; in any
  case the final entry under that name is the Symbol, with such a range, of a declaration
  at or after \<open>i\<close>. Every Symbol of the final table has such a range, for some keyword and
  identifier pair of the sequence. When the two tokens are on different lines the range
  spans several lines.
\<close>

theorem declaration_range_from_keyword_to_identifier:
  "(Suc i < length toks \<and> tok_type (toks ! i) = KEYWORD \<and>
    tok_value (toks ! i) \<in> set [''function'', ''let'', ''struct'', ''data''] \<and>
    tok_type (toks ! Suc i) = IDENTIFIER \<longrightarrow>
    (\<exists>info' s. parse_step toks i info = Some (Suc (Suc i), info') \<and>
      map_of (di_symbols info') (tok_value (toks ! Suc i)) = Some s \<and>
      sym_range s =
        \<lparr>range_start = \<lparr>pos_line = tok_line (toks ! i), pos_character = tok_column (toks ! i)\<rparr>,
         range_end = \<lparr>pos_line = tok_line (toks ! Suc i),
           pos_character = tok_column (toks ! Suc i) + length (tok_value (toks ! Suc i))\<rparr>\<rparr> \<and>
      sym_selectionRange s = sym_range s) \<and>
    (\<exists>s. map_of (di_symbols (parse (take (Suc (Suc i)) toks))) (tok_value (toks ! Suc i)) = Some s \<and>
      sym_range s =
        \<lparr>range_start = \<lparr>pos_line = tok_line (toks ! i), pos_character = tok_column (toks ! i)\<rparr>,
         range_end = \<lparr>pos_line = tok_line (toks ! Suc i),
           pos_character = tok_column (toks ! Suc i) + length (tok_value (toks ! Suc i))\<rparr>\<rparr> \<and>
      sym_selectionRange s = sym_range s) \<and>
    (\<exists>j s. i \<le> j \<and> Suc j < length toks \<and> tok_type (toks ! j) = KEYWORD \<and>
    tok_value (toks ! j) \<in> set [''function'', ''let'', ''struct'', ''data''] \<and>
    tok_type (toks ! Suc j) = IDENTIFIER \<and>
      tok_value (toks ! Suc j) = tok_value (toks ! Suc i) \<and>
      map_of (di_symbols (parse toks)) (tok_value (toks ! Suc i)) = Some s \<and>
      sym_range s =
        \<lparr>range_start = \<lparr>pos_line = tok_line (toks ! j), pos_character = tok_column (toks ! j)\<rparr>,
         range_end = \<lparr>pos_line = tok_line (toks ! Suc j),
           pos_character = tok_column (toks ! Suc j) + length (tok_value (toks ! Suc j))\<rparr>\<rparr> \<and>
      sym_selectionRange s = sym_range s) \<and>
    ((\<forall>k. i < k \<and> Suc k < length toks \<and> tok_type (toks ! k) = KEYWORD \<and>
    tok_value (toks ! k) \<in> set [''function'', ''let'', ''struct'', ''data''] \<and>
    tok_type (toks ! Suc k) = IDENTIFIER \<longrightarrow>
        tok_value (toks ! Suc k) \<noteq> tok_value (toks ! Suc i)) \<longrightarrow>
     (\<exists>s. map_of (di_symbols (parse toks)) (tok_value (toks ! Suc i)) = Some s \<and>
      sym_range s =
        \<lparr>range_start = \<lparr>pos_line = tok_line (toks ! i), pos_character = tok_column (toks ! i)\<rparr>,
         range_end = \<lparr>pos_line = tok_line (toks ! Suc i),
           pos_character = tok_column (toks ! Suc i) + length (tok_value (toks ! Suc i))\<rparr>\<rparr> \<and>
      sym_selectionRange s = sym_range s))) \<and>
   (\<forall>(n, s) \<in> set (di_symbols (parse toks)).
      \<exists>j. Suc j < length toks \<and> tok_type (toks ! j) = KEYWORD \<and>
    tok_value (toks ! j) \<in> set [''function'', ''let'', ''struct'', ''data''] \<and>
    tok_type (toks ! Suc j) = IDENTIFIER \<and>
          n = tok_value (toks ! Suc j) \<and>
          sym_range s =
        \<lparr>range_start = \<lparr>pos_line = tok_line (toks ! j), pos_character = tok_column (toks ! j)\<rparr>,
         range_end = \<lparr>pos_line = tok_line (toks ! Suc j),
           pos_character = tok_column (toks ! Suc j) + length (tok_value (toks ! Suc j))\<rparr>\<rparr> \<and>
          sym_selectionRange s = sym_range s)"
proof (intro conjI impI)
  assume a: "Suc i < length toks \<and> tok_type (toks ! i) = KEYWORD \<and>
    tok_value (toks ! i) \<in> set [''function'', ''let'', ''struct'', ''data''] \<and>
    tok_type (toks ! Suc i) = IDENTIFIER"
  then have h: "Suc i < length toks" "tok_type (toks ! i) = KEYWORD"
    "tok_value (toks ! i) \<in> set [''function'', ''let'', ''struct'', ''data'']"
    "tok_type (toks ! Suc i) = IDENTIFIER"
    by simp_all
  show "(\<exists>info' s. parse_step toks i info = Some (Suc (Suc i), info') \<and>
      map_of (di_symbols info') (tok_value (toks ! Suc i)) = Some s \<and>
      sym_range s =
        \<lparr>range_start = \<lparr>pos_line = tok_line (toks ! i), pos_character = tok_column (toks ! i)\<rparr>,
         range_end = \<lparr>pos_line = tok_line (toks ! Suc i),
           pos_character = tok_column (toks ! Suc i) + length (tok_value (toks ! Suc i))\<rparr>\<rparr> \<and>
      sym_selectionRange s = sym_range s)"
    by (rule parse_step_stores_declaration [OF h])
  show "(\<exists>s. map_of (di_symbols (parse (take (Suc (Suc i)) toks))) (tok_value (toks ! Suc i)) = Some s \<and>
      sym_range s =
        \<lparr>range_start = \<lparr>pos_line = tok_line (toks ! i), pos_character = tok_column (toks ! i)\<rparr>,
         range_end = \<lparr>pos_line = tok_line (toks ! Suc i),
           pos_character = tok_column (toks ! Suc i) + length (tok_value (toks ! Suc i))\<rparr>\<rparr> \<and>
      sym_selectionRange s = sym_range s)"
    by (rule stored_in_prefix [OF h])
  show "(\<exists>j s. i \<le> j \<and> Suc j < length toks \<and> tok_type (toks ! j) = KEYWORD \<and>
    tok_value (toks ! j) \<in> set [''function'', ''let'', ''struct'', ''data''] \<and>
    tok_type (toks ! Suc j) = IDENTIFIER \<and>
      tok_value (toks ! Suc j) = tok_value (toks ! Suc i) \<and>
      map_of (di_symbols (parse toks)) (tok_value (toks ! Suc i)) = Some s \<and>
      sym_range s =
        \<lparr>range_start = \<lparr>pos_line = tok_line (toks ! j), pos_character = tok_column (toks ! j)\<rparr>,
         range_end = \<lparr>pos_line = tok_line (toks ! Suc j),
           pos_character = tok_column (toks ! Suc j) + length (tok_value (toks ! Suc j))\<rparr>\<rparr> \<and>
      sym_selectionRange s = sym_range s)"
    by (rule stored_in_table(1) [OF h])
  assume "(\<forall>k. i < k \<and> Suc k < length toks \<and> tok_type (toks ! k) = KEYWORD \<and>
    tok_value (toks ! k) \<in> set [''function'', ''let'', ''struct'', ''data''] \<and>
    tok_type (toks ! Suc k) = IDENTIFIER \<longrightarrow>
        tok_value (toks ! Suc k) \<noteq> tok_value (toks ! Suc i))"
  then show "(\<exists>s. map_of (di_symbols (parse toks)) (tok_value (toks ! Suc i)) = Some s \<and>
      sym_range s =
        \<lparr>range_start = \<lparr>pos_line = tok_line (toks ! i), pos_character = tok_column (toks ! i)\<rparr>,
         range_end = \<lparr>pos_line = tok_line (toks ! Suc i),
           pos_character = tok_column (toks ! Suc i) + length (tok_value (toks ! Suc i))\<rparr>\<rparr> \<and>
      sym_selectionRange s = sym_range s)"
    by (rule stored_in_table(2) [OF h])
next
  show "(\<forall>(n, s) \<in> set (di_symbols (parse toks)).
      \<exists>j. Suc j < length toks \<and> tok_type (toks ! j) = KEYWORD \<and>
    tok_value (toks ! j) \<in> set [''function'', ''let'', ''struct'', ''data''] \<and>
    tok_type (toks ! Suc j) = IDENTIFIER \<and>
          n = tok_value (toks ! Suc j) \<and>
          sym_range s =
        \<lparr>range_start = \<lparr>pos_line = tok_line (toks ! j), pos_character = tok_column (toks ! j)\<rparr>,
         range_end = \<lparr>pos_line = tok_line (toks ! Suc j),
           pos_character = tok_column (toks ! Suc j) + length (tok_value (toks ! Suc j))\<rparr>\<rparr> \<and>
          sym_selectionRange s = sym_range s)"
    by (rule table_entries_are_declarations)
qed


theorem declaration_range_witness:
  "tokenize ''let x = 1'' =
     [\<lparr>tok_type = KEYWORD, tok_value = ''let'', tok_line = 0, tok_column = 0, tok_valid = None\<rparr>,
      \<lparr>tok_type = IDENTIFIER, tok_value = ''x'', tok_line = 0, tok_column = 4, tok_valid = None\<rparr>,
      \<lparr>tok_type = PUNCTUATION, tok_value = ''='', tok_line = 0, tok_column = 6,
       tok_valid = None\<rparr>,
      \<lparr>tok_type = NUMBER, tok_value = ''1'', tok_line = 0, tok_column = 8, tok_valid = None\<rparr>] \<and>
   (\<exists>s. map_of (di_symbols (parse (tokenize ''let x = 1''))) ''x'' = Some s \<and>
        sym_range s = \<lparr>range_start = \<lparr>pos_line = 0, pos_character = 0\<rparr>,
                       range_end = \<lparr>pos_line = 0, pos_character = 5\<rparr>\<rparr>) \<and>
   tokenize ''function\<newline>foo'' =
     [\<lparr>tok_type = KEYWORD, tok_value = ''function'', tok_line = 0, tok_column = 0,
       tok_valid = None\<rparr>,
      \<lparr>tok_type = IDENTIFIER, tok_value = ''foo'', tok_line = 1, tok_column = 0,
       tok_valid = None\<rparr>] \<and>
   (\<exists>s. map_of (di_symbols (parse (tokenize ''function\<newline>foo''))) ''foo'' = Some s \<and>
        sym_range s = \<lparr>range_start = \<lparr>pos_line = 0, pos_character = 0\<rparr>,
                       range_end = \<lparr>pos_line = 1, pos_character = 3\<rparr>\<rparr>)"
proof -
  let ?a = "[\<lparr>tok_type = KEYWORD, tok_value = ''let'', tok_line = 0, tok_column = 0, tok_valid = None\<rparr>,
      \<lparr>tok_type = IDENTIFIER, tok_value = ''x'', tok_line = 0, tok_column = 4, tok_valid = None\<rparr>,
      \<lparr>tok_type = PUNCTUATION, tok_value = ''='', tok_line = 0, tok_column = 6,
       tok_valid = None\<rparr>,
      \<lparr>tok_type = NUMBER, tok_value = ''1'', tok_line = 0, tok_column = 8, tok_valid = None\<rparr>]"
  let ?b = "[\<lparr>tok_type = KEYWORD, tok_value = ''function'', tok_line = 0, tok_column = 0,
       tok_valid = None\<rparr>,
      \<lparr>tok_type = IDENTIFIER, tok_value = ''foo'', tok_line = 1, tok_column = 0,
       tok_valid = None\<rparr>]"
  have ta: "tokenize ''let x = 1'' = ?a" by code_simp
  have tb: "tokenize ''function\<newline>foo'' = ?b" by code_simp
  have la: "\<forall>k. 0 < k \<and> Suc k < length ?a \<and> tok_type (?a ! k) = KEYWORD \<and>
      tok_value (?a ! k) \<in> set [''function'', ''let'', ''struct'', ''data''] \<and>
      tok_type (?a ! Suc k) = IDENTIFIER \<longrightarrow>
      tok_value (?a ! Suc k) \<noteq> tok_value (?a ! Suc 0)"
  proof (intro allI impI)
    fix k
    assume a: "0 < k \<and> Suc k < length ?a \<and> tok_type (?a ! k) = KEYWORD \<and>
      tok_value (?a ! k) \<in> set [''function'', ''let'', ''struct'', ''data''] \<and>
      tok_type (?a ! Suc k) = IDENTIFIER"
    then have "k = 1 \<or> k = 2" by auto
    with a show "tok_value (?a ! Suc k) \<noteq> tok_value (?a ! Suc 0)" by auto
  qed
  have lb: "\<forall>k. 0 < k \<and> Suc k < length ?b \<and> tok_type (?b ! k) = KEYWORD \<and>
      tok_value (?b ! k) \<in> set [''function'', ''let'', ''struct'', ''data''] \<and>
      tok_type (?b ! Suc k) = IDENTIFIER \<longrightarrow>
      tok_value (?b ! Suc k) \<noteq> tok_value (?b ! Suc 0)"
    by auto
  have ca: "Suc 0 < length ?a \<and> tok_type (?a ! 0) = KEYWORD \<and>
      tok_value (?a ! 0) \<in> set [''function'', ''let'', ''struct'', ''data''] \<and>
      tok_type (?a ! Suc 0) = IDENTIFIER" by simp
  have cb: "Suc 0 < length ?b \<and> tok_type (?b ! 0) = KEYWORD \<and>
      tok_value (?b ! 0) \<in> set [''function'', ''let'', ''struct'', ''data''] \<and>
      tok_type (?b ! Suc 0) = IDENTIFIER" by simp
  from declaration_range_from_keyword_to_identifier [of 0 ?a] ca la
  have fa: "\<exists>s. map_of (di_symbols (parse ?a)) (tok_value (?a ! Suc 0)) = Some s \<and>
      sym_range s =
        \<lparr>range_start = \<lparr>pos_line = tok_line (?a ! 0), pos_character = tok_column (?a ! 0)\<rparr>,
         range_end = \<lparr>pos_line = tok_line (?a ! Suc 0),
           pos_character = tok_column (?a ! Suc 0) + length (tok_value (?a ! Suc 0))\<rparr>\<rparr> \<and>
      sym_selectionRange s = sym_range s"
    by blast
  from declaration_range_from_keyword_to_identifier [of 0 ?b] cb lb
  have fb: "\<exists>s. map_of (di_symbols (parse ?b)) (tok_value (?b ! Suc 0)) = Some s \<and>
      sym_range s =
        \<lparr>range_start = \<lparr>pos_line = tok_line (?b ! 0), pos_character = tok_column (?b ! 0)\<rparr>,
         range_end = \<lparr>pos_line = tok_line (?b ! Suc 0),
           pos_character = tok_column (?b ! Suc 0) + length (tok_value (?b ! Suc 0))\<rparr>\<rparr> \<and>
      sym_selectionRange s = sym_range s"
    by blast
  from fa have ra: "\<exists>s. map_of (di_symbols (parse ?a)) ''x'' = Some s \<and>
        sym_range s = \<lparr>range_start = \<lparr>pos_line = 0, pos_character = 0\<rparr>,
                       range_end = \<lparr>pos_line = 0, pos_character = 5\<rparr>\<rparr>"
    by auto
  from fb have rb: "\<exists>s. map_of (di_symbols (parse ?b)) ''foo'' = Some s \<and>
        sym_range s = \<lparr>range_start = \<lparr>pos_line = 0, pos_character = 0\<rparr>,
                       range_end = \<lparr>pos_line = 1, pos_character = 3\<rparr>\<rparr>"
    by auto
  from ra rb show ?thesis unfolding ta tb by simp
qed

lemma validate_token_no_literal:
  "tok_type tok \<noteq> STRING \<Longrightarrow> tok_type tok \<noteq> NUMBER \<Longrightarrow> validate_token tok = []"
  by (simp add: validate_token_def)

lemma validateDocument_literals:
  "validateDocument toks =
   validateDocument (filter (\<lambda>tok. tok_type tok = STRING \<or> tok_type tok = NUMBER) toks)"
proof (induction toks)
  case Nil
  show ?case by simp
next
  case (Cons tok toks)
  then show ?case
    by (simp add: validateDocument_Cons validate_token_no_literal)
qed

text \<open>
  Claim C8. Processing a \<^verbatim>\<open>load\<close> keyword at position \<open>p\<close> appends the text of the token
  at \<open>p + 2\<close> to the import list exactly when the token at \<open>p + 1\<close> is the keyword
  \<^verbatim>\<open>system\<close> and the token at \<open>p + 2\<close> is an Identifier; otherwise the DocumentInfo is
  returned unchanged. Over a whole token sequence the import list is the list of the
  modules of the \<^verbatim>\<open>load system name\<close> triples, in order. For every token sequence the
  diagnostics are those of its String and Number tokens alone: a keyword or identifier
  token, and so a well-formed or malformed \<^verbatim>\<open>load\<close>, never raises one.
\<close>

theorem load_records_import:
  "snd (parseLoad toks p info) =
     (if Suc (Suc p) < length toks \<and>
         tok_type (toks ! Suc p) = KEYWORD \<and> tok_value (toks ! Suc p) = ''system'' \<and>
         tok_type (toks ! Suc (Suc p)) = IDENTIFIER
      then info\<lparr>di_imports := di_imports info @ [tok_value (toks ! Suc (Suc p))]\<rparr>
      else info) \<and>
   di_imports (parse toks) = loaded_modules toks \<and>
   validateDocument toks =
     validateDocument (filter (\<lambda>tok. tok_type tok = STRING \<or> tok_type tok = NUMBER) toks) \<and>
   validate_token \<lparr>tok_type = KEYWORD, tok_value = v, tok_line = l, tok_column = c,
     tok_valid = b\<rparr> = [] \<and>
   validate_token \<lparr>tok_type = IDENTIFIER, tok_value = v, tok_line = l, tok_column = c,
     tok_valid = b\<rparr> = []"
proof (intro conjI)
  show "snd (parseLoad toks p info) =
     (if Suc (Suc p) < length toks \<and>
         tok_type (toks ! Suc p) = KEYWORD \<and> tok_value (toks ! Suc p) = ''system'' \<and>
         tok_type (toks ! Suc (Suc p)) = IDENTIFIER
      then info\<lparr>di_imports := di_imports info @ [tok_value (toks ! Suc (Suc p))]\<rparr>
      else info)"
    by (auto simp add: parseLoad_def parser_advance_def parser_peek_def Let_def)
next
  show "di_imports (parse toks) = loaded_modules toks"
    using parse_loop_effect [of toks 0] by (simp add: parse_def loaded_modules_def)
next
  show "validateDocument toks =
     validateDocument (filter (\<lambda>tok. tok_type tok = STRING \<or> tok_type tok = NUMBER) toks)"
    by (rule validateDocument_literals)
qed (simp_all add: validate_token_def)

theorem load_records_import_witness:
  "parse (tokenize ''load system io'') =
     \<lparr>di_symbols = [], di_imports = [''io''], di_functions = [], di_variables = []\<rparr> \<and>
   loaded_modules (tokenize ''load system io'') = [''io''] \<and>
   parse (tokenize ''load system'') =
     \<lparr>di_symbols = [], di_imports = [], di_functions = [], di_variables = []\<rparr> \<and>
   validateDocument (tokenize ''load system'') = [] \<and>
   parse (tokenize ''load system 1'') =
     \<lparr>di_symbols = [], di_imports = [], di_functions = [], di_variables = []\<rparr> \<and>
   validateDocument (tokenize ''load system 1'') = [] \<and>
   di_imports (parse (tokenize ''let x = 1 load system'')) = [] \<and>
   validateDocument (tokenize ''let x = 1 load system'') = []"
proof -
  have a: "parse (tokenize ''load system io'') =
     \<lparr>di_symbols = [], di_imports = [''io''], di_functions = [], di_variables = []\<rparr>"
    "parse (tokenize ''load system'') =
     \<lparr>di_symbols = [], di_imports = [], di_functions = [], di_variables = []\<rparr>"
    "parse (tokenize ''load system 1'') =
     \<lparr>di_symbols = [], di_imports = [], di_functions = [], di_variables = []\<rparr>"
    "di_imports (parse (tokenize ''let x = 1 load system'')) = []"
    by code_simp+
  have f: "validateDocument
      (filter (\<lambda>tok. tok_type tok = STRING \<or> tok_type tok = NUMBER) (tokenize ''load system'')) = []"
    "validateDocument
      (filter (\<lambda>tok. tok_type tok = STRING \<or> tok_type tok = NUMBER) (tokenize ''load system 1'')) = []"
    "validateDocument
      (filter (\<lambda>tok. tok_type tok = STRING \<or> tok_type tok = NUMBER)
        (tokenize ''let x = 1 load system'')) = []"
    by code_simp+
  from load_records_import [of "tokenize ''load system io''"] a
  have m: "loaded_modules (tokenize ''load system io'') = [''io'']" by simp
  from load_records_import [of "tokenize ''load system''"] f
  have d1: "validateDocument (tokenize ''load system'') = []" by simp
  from load_records_import [of "tokenize ''load system 1''"] f
  have d2: "validateDocument (tokenize ''load system 1'') = []" by simp
  from load_records_import [of "tokenize ''let x = 1 load system''"] f
  have d3: "validateDocument (tokenize ''let x = 1 load system'') = []" by simp
  from a m d1 d2 d3 show ?thesis by simp
qed

section \<open>The string scan\<close>

text \<open>
  A property that holds when the loop of \<^verbatim>\<open>readString\<close> starts and is kept by each of its
  three ways of going round holds when it ends; and the loop ends only at the end of the
  text or in front of the quote character.
\<close>

lemma readString_loop_invariant:
  assumes "I s val"
    and plain: "\<And>s val c. I s val \<Longrightarrow> peek t s = Some c \<Longrightarrow> Some c \<noteq> quote \<Longrightarrow> c \<noteq> CHR 0x5C
          \<Longrightarrow> I (advance t s) (val @ [c])"
    and escaped: "\<And>s val e. I s val \<Longrightarrow> peek t s = Some CHR 0x5C \<Longrightarrow> Some CHR 0x5C \<noteq> quote
          \<Longrightarrow> peek t (advance t s) = Some e \<Longrightarrow> I (advance t (advance t s)) (val @ [e])"
    and dangling: "\<And>s val. I s val \<Longrightarrow> peek t s = Some CHR 0x5C \<Longrightarrow> Some CHR 0x5C \<noteq> quote
          \<Longrightarrow> peek t (advance t s) = None \<Longrightarrow> I (advance t s) val"
  shows "I (fst (readString_loop t quote s val)) (snd (readString_loop t quote s val)) \<and>
     (peek t (fst (readString_loop t quote s val)) = None \<or>
      peek t (fst (readString_loop t quote s val)) = quote)"
  using assms
proof (induction t quote s val rule: readString_loop.induct)
  case (1 t quote s val)
  note I = "1.prems"(1) and plain = "1.prems"(2) and escaped = "1.prems"(3)
    and dangling = "1.prems"(4)
  show ?case
  proof (cases "peek t s")
    case None
    with I show ?thesis by (simp add: readString_loop.simps [of t quote s])
  next
    case (Some c)
    note c = this
    show ?thesis
    proof (cases "Some c = quote")
      case True
      then have q: "quote = Some c" by simp
      from c I show ?thesis
        unfolding q by (simp add: readString_loop.simps [of t "Some c" s])
    next
      case nq: False
      show ?thesis
      proof (cases "c = CHR 0x5C")
        case False
        have i': "I (advance t s) (val @ [c])" by (rule plain [OF I c nq False])
        have eq: "readString_loop t quote s val =
            readString_loop t quote (advance t s) (val @ [c])"
          using c nq False by (simp add: readString_loop.simps [of t quote s])
        show ?thesis
          unfolding eq by (rule "1.IH"(3) [OF c nq False i' plain escaped dangling])
      next
        case bs: True
        show ?thesis
        proof (cases "peek t (advance t s)")
          case None
          from dangling [OF I _ _ None] c nq bs have i': "I (advance t s) val" by simp
          have eq: "readString_loop t quote s val = readString_loop t quote (advance t s) val"
            using c nq bs None by (simp add: readString_loop.simps [of t quote s])
          show ?thesis
            unfolding eq by (rule "1.IH"(1) [OF c nq bs refl None i' plain escaped dangling])
        next
          case (Some e)
          from escaped [OF I _ _ Some] c nq bs
          have i': "I (advance t (advance t s)) (val @ [e])" by simp
          have eq: "readString_loop t quote s val =
              readString_loop t quote (advance t (advance t s)) (val @ [e])"
            using c nq bs Some by (simp add: readString_loop.simps [of t quote s])
          show ?thesis
            unfolding eq by (rule "1.IH"(2) [OF c nq bs refl Some i' plain escaped dangling])
        qed
      qed
    qed
  qed
qed

lemma readString_loop_bounded:
  assumes "pos s \<le> length t"
  shows "pos (fst (readString_loop t quote s val)) \<le> length t"
proof -
  have "pos (fst (readString_loop t quote s val)) \<le> length t \<and>
     (peek t (fst (readString_loop t quote s val)) = None \<or>
      peek t (fst (readString_loop t quote s val)) = quote)"
  proof (rule readString_loop_invariant [where I = "\<lambda>s val. pos s \<le> length t"])
    show "pos s \<le> length t" by (rule assms)
  qed (auto dest: peek_Some_less)
  then show ?thesis by simp
qed

lemma readString_loop_stop:
  "peek t (fst (readString_loop t quote s val)) = None \<or>
   peek t (fst (readString_loop t quote s val)) = quote"
  using readString_loop_invariant [of "\<lambda>s val. True" s val t quote] by simp

lemma notin_drop_Suc: "q \<notin> set (drop n xs) \<Longrightarrow> q \<notin> set (drop (Suc n) xs)"
  using set_drop_subset_set_drop [of n "Suc n" xs] by auto

lemma readString_loop_no_quote:
  assumes "q \<notin> set (drop (pos s) t)"
  shows "peek t (fst (readString_loop t (Some q) s val)) = None"
proof -
  let ?s' = "fst (readString_loop t (Some q) s val)"
  have "q \<notin> set (drop (pos ?s') t) \<and> (peek t ?s' = None \<or> peek t ?s' = Some q)"
  proof (rule readString_loop_invariant [where I = "\<lambda>s val. q \<notin> set (drop (pos s) t)"])
    show "q \<notin> set (drop (pos s) t)" by (rule assms)
  qed (simp_all add: notin_drop_Suc)
  moreover have "q \<in> set (drop (pos ?s') t)" if "peek t ?s' = Some q"
  proof -
    from that have "pos ?s' < length t" "t ! pos ?s' = q"
      by (simp_all add: peek_def split: if_splits)
    then have "drop (pos ?s') t = q # drop (Suc (pos ?s')) t"
      using Cons_nth_drop_Suc [of "pos ?s'" t] by simp
    then show ?thesis by simp
  qed
  ultimately show ?thesis by blast
qed

lemma peek_drop: "drop (pos s) t = c # cs \<Longrightarrow> peek t s = Some c"
proof -
  assume a: "drop (pos s) t = c # cs"
  then have lt: "pos s < length t" by (cases "pos s < length t") auto
  from a have "hd (drop (pos s) t) = c" by simp
  with lt have "t ! pos s = c" by (simp add: hd_drop_conv_nth)
  with lt show ?thesis by (simp add: peek_def)
qed

lemma peek_drop_Nil: "drop (pos s) t = [] \<Longrightarrow> peek t s = None"
  by (simp add: peek_def)

lemma drop_advance: "drop (pos s) t = c # cs \<Longrightarrow> drop (pos (advance t s)) t = cs"
proof -
  assume a: "drop (pos s) t = c # cs"
  have "drop (Suc (pos s)) t = tl (drop (pos s) t)" by (simp add: drop_Suc tl_drop)
  with a show ?thesis by simp
qed

lemma readString_loop_plain_body:
  assumes "drop (pos s) t = body @ rest" and "q \<notin> set body" and "CHR 0x5C \<notin> set body"
    and "rest = [] \<or> hd rest = q"
  shows "readString_loop t (Some q) s val = ((advance t ^^ length body) s, val @ body)"
  using assms
proof (induction body arbitrary: s val)
  case Nil
  have "peek t s = None \<or> peek t s = Some q"
  proof (cases rest)
    case Nil
    with Nil.prems(1) show ?thesis by (simp add: peek_drop_Nil)
  next
    case (Cons r rs)
    with Nil.prems have "drop (pos s) t = q # rs" by simp
    then show ?thesis by (simp add: peek_drop)
  qed
  then show ?case by (auto simp add: readString_loop.simps [of t "Some q" s])
next
  case (Cons c body)
  from Cons.prems(1) have dc: "drop (pos s) t = c # (body @ rest)" by simp
  have c: "peek t s = Some c" by (rule peek_drop [OF dc])
  have d: "drop (pos (advance t s)) t = body @ rest" by (rule drop_advance [OF dc])
  from Cons.prems have ne: "c \<noteq> q" "c \<noteq> CHR 0x5C" by auto
  from Cons.prems have b: "q \<notin> set body" "CHR 0x5C \<notin> set body" by auto
  from Cons.IH [OF d b Cons.prems(4), of "val @ [c]"]
  have "readString_loop t (Some q) (advance t s) (val @ [c]) =
      ((advance t ^^ length body) (advance t s), val @ c # body)"
    by simp
  moreover have "(advance t ^^ length (c # body)) s = (advance t ^^ length body) (advance t s)"
    by (simp add: funpow_Suc_right del: funpow.simps)
  moreover have "readString_loop t (Some q) s val =
      readString_loop t (Some q) (advance t s) (val @ [c])"
    using c ne by (simp add: readString_loop.simps [of t "Some q" s])
  ultimately show ?case by simp
qed


lemma readString_result:
  assumes q: "peek t s = Some q"
  shows "\<exists>s' val valid.
    readString t s = (s', val, valid) \<and>
    (valid \<longrightarrow> pos s + 2 \<le> pos s' \<and> pos s' \<le> length t \<and> t ! (pos s' - 1) = q) \<and>
    (\<not> valid \<longrightarrow> pos s' = length t) \<and>
    (q \<notin> set (drop (Suc (pos s)) t) \<longrightarrow> \<not> valid) \<and>
    (\<forall>body rest. drop (Suc (pos s)) t = body @ q # rest \<and> q \<notin> set body \<and>
        CHR 0x5C \<notin> set body \<longrightarrow>
        valid \<and> val = body \<and> pos s' = pos s + length body + 2) \<and>
    (q \<notin> set (drop (Suc (pos s)) t) \<and> CHR 0x5C \<notin> set (drop (Suc (pos s)) t) \<longrightarrow>
        val = drop (Suc (pos s)) t)"
proof -
  let ?s0 = "advance t s"
  let ?r = "readString_loop t (Some q) ?s0 []"
  let ?s1 = "fst ?r" and ?v = "snd ?r"
  from q have lt: "pos s < length t" by (rule peek_Some_less)
  have ge: "Suc (pos s) \<le> pos ?s1"
    using readString_loop_pos [of ?s0 t "Some q" "[]"] by simp
  have le: "pos ?s1 \<le> length t"
    using lt by (intro readString_loop_bounded) simp
  have stop: "peek t ?s1 = None \<or> peek t ?s1 = Some q" by (rule readString_loop_stop)
  have noq: "q \<notin> set (drop (Suc (pos s)) t) \<Longrightarrow> peek t ?s1 = None"
    using readString_loop_no_quote [of q ?s0 t "[]"] by simp
  have body: "?r = ((advance t ^^ length body) ?s0, body)"
    if "drop (Suc (pos s)) t = body @ rest" "q \<notin> set body" "CHR 0x5C \<notin> set body"
      "rest = [] \<or> hd rest = q" for body rest
    using readString_loop_plain_body [of ?s0 t body rest q "[]"] that by simp
  show ?thesis
  proof (cases "peek t ?s1 = Some q")
    case True
    then have lt1: "pos ?s1 < length t" and at: "t ! pos ?s1 = q"
      by (simp_all add: peek_def split: if_splits)
    have r: "readString t s = (advance t ?s1, ?v, True)"
      using q True by (simp add: readString_def Let_def split_beta)
    have b: "?v = body \<and> pos ?s1 = pos s + length body + 1"
      if "drop (Suc (pos s)) t = body @ q # rest" "q \<notin> set body" "CHR 0x5C \<notin> set body"
      for body rest
      using body [of body "q # rest"] that by simp
    from True noq have "q \<in> set (drop (Suc (pos s)) t)" by auto
    with r ge lt1 at b show ?thesis by auto
  next
    case False
    with stop have none: "peek t ?s1 = None" by simp
    then have "length t \<le> pos ?s1" by (simp add: peek_def split: if_splits)
    with le have eq: "pos ?s1 = length t" by simp
    have r: "readString t s = (?s1, ?v, False)"
      using q none by (simp add: readString_def Let_def split_beta)
    have nb: False
      if "drop (Suc (pos s)) t = body @ q # rest" "q \<notin> set body" "CHR 0x5C \<notin> set body"
      for body rest
    proof -
      from body [of body "q # rest"] that
      have p: "pos ?s1 = pos s + length body + 1" by simp
      from that(1) have "length (drop (Suc (pos s)) t) = length body + Suc (length rest)"
        by simp
      with p eq lt show False by simp
    qed
    have v: "?v = drop (Suc (pos s)) t"
      if "q \<notin> set (drop (Suc (pos s)) t)" "CHR 0x5C \<notin> set (drop (Suc (pos s)) t)"
      using body [of "drop (Suc (pos s)) t" "[]"] that by simp
    from r eq nb v show ?thesis by auto
  qed
qed

lemma funpow_Suc_shift: "(f ^^ Suc m) x = (f ^^ m) (f x)"
  by (simp add: funpow_Suc_right del: funpow.simps)

lemma string_items_exist:
  "\<exists>items tail. list_all (well_formed_item q) items \<and> cs = items_text items @ tail \<and>
     (tail = [] \<or> tail = [CHR 0x5C] \<or> (\<exists>r. tail = q # r))"
proof (induction cs rule: length_induct)
  case (1 cs)
  show ?case
  proof (cases cs)
    case Nil
    then show ?thesis
      by (intro exI [of _ "[]"]) (simp add: items_text_def)
  next
    case (Cons c cs')
    show ?thesis
    proof (cases "c = q")
      case True
      with Cons show ?thesis
        by (intro exI [of _ "[]"] exI [of _ cs]) (simp add: items_text_def)
    next
      case nq: False
      show ?thesis
      proof (cases "c = CHR 0x5C")
        case False
        from "1.IH" Cons obtain items tail where
          i: "list_all (well_formed_item q) items" "cs' = items_text items @ tail"
            "tail = [] \<or> tail = [CHR 0x5C] \<or> (\<exists>r. tail = q # r)"
          by (metis length_Cons lessI)
        with Cons nq False show ?thesis
          by (intro exI [of _ "Plain c # items"] exI [of _ tail]) (simp add: items_text_def)
      next
        case bs: True
        show ?thesis
        proof (cases cs')
          case Nil
          with Cons bs show ?thesis
            by (intro exI [of _ "[]"] exI [of _ "[CHR 0x5C]"]) (simp add: items_text_def)
        next
          case (Cons e cs'')
          with \<open>cs = c # cs'\<close> have "length cs'' < length cs" by simp
          with "1.IH" obtain items tail where
            i: "list_all (well_formed_item q) items" "cs'' = items_text items @ tail"
              "tail = [] \<or> tail = [CHR 0x5C] \<or> (\<exists>r. tail = q # r)"
            by blast
          with Cons \<open>cs = c # cs'\<close> bs show ?thesis
            by (intro exI [of _ "Escaped e # items"] exI [of _ tail]) (simp add: items_text_def)
        qed
      qed
    qed
  qed
qed

lemma readString_loop_items:
  assumes "q \<noteq> CHR 0x5C" and "list_all (well_formed_item q) items"
    and "drop (pos s) t = items_text items @ tail"
    and "tail = [] \<or> tail = [CHR 0x5C] \<or> (\<exists>r. tail = q # r)"
  shows "readString_loop t (Some q) s val =
    ((advance t ^^ (length (items_text items) + (if tail = [CHR 0x5C] then 1 else 0))) s,
     val @ map item_value items)"
  using assms(2,3)
proof (induction items arbitrary: s val)
  case Nil
  then have d: "drop (pos s) t = tail" by (simp add: items_text_def)
  from assms(4) consider (e) "tail = []" | (b) "tail = [CHR 0x5C]" | (q) r where "tail = q # r"
    by blast
  then show ?case
  proof cases
    case e
    with d have "peek t s = None" by (simp add: peek_drop_Nil)
    with e show ?thesis
      by (simp add: readString_loop.simps [of t "Some q" s] items_text_def)
  next
    case q
    with d have "peek t s = Some q" by (simp add: peek_drop)
    moreover from q assms(1) have "tail \<noteq> [CHR 0x5C]" by auto
    ultimately show ?thesis
      by (simp add: readString_loop.simps [of t "Some q" s] items_text_def)
  next
    case b
    with d have d': "drop (pos s) t = [CHR 0x5C]" by simp
    then have p: "peek t s = Some CHR 0x5C" by (rule peek_drop)
    from d' have "drop (pos (advance t s)) t = []" by (rule drop_advance)
    then have p1: "peek t (advance t s) = None" by (rule peek_drop_Nil)
    have 1: "readString_loop t (Some q) s val = readString_loop t (Some q) (advance t s) val"
      using p p1 assms(1) by (simp add: readString_loop.simps [of t "Some q" s])
    have 2: "readString_loop t (Some q) (advance t s) val = (advance t s, val)"
      using p1 by (simp add: readString_loop.simps [of t "Some q" "advance t s"])
    show ?thesis unfolding 1 2 using b by (simp add: items_text_def)
  qed
next
  case (Cons it items)
  from Cons.prems have wf: "list_all (well_formed_item q) items" by simp
  show ?case
  proof (cases it)
    case (Plain c)
    with Cons.prems have dc: "drop (pos s) t = c # (items_text items @ tail)"
      and ne: "c \<noteq> q" "c \<noteq> CHR 0x5C"
      by (simp_all add: items_text_def)
    have p: "peek t s = Some c" by (rule peek_drop [OF dc])
    have d: "drop (pos (advance t s)) t = items_text items @ tail" by (rule drop_advance [OF dc])
    have 1: "readString_loop t (Some q) s val =
        readString_loop t (Some q) (advance t s) (val @ [c])"
      using p ne by (simp add: readString_loop.simps [of t "Some q" s])
    have 2: "length (items_text (it # items)) = Suc (length (items_text items))"
      using Plain by (simp add: items_text_def)
    show ?thesis
      unfolding 1 2 Cons.IH [OF wf d] using Plain
      by (simp add: funpow_Suc_shift del: funpow.simps)
  next
    case (Escaped e)
    with Cons.prems have dc: "drop (pos s) t = CHR 0x5C # (e # (items_text items @ tail))"
      by (simp add: items_text_def)
    have p: "peek t s = Some CHR 0x5C" by (rule peek_drop [OF dc])
    have d1: "drop (pos (advance t s)) t = e # (items_text items @ tail)"
      by (rule drop_advance [OF dc])
    have p1: "peek t (advance t s) = Some e" by (rule peek_drop [OF d1])
    have d: "drop (pos (advance t (advance t s))) t = items_text items @ tail"
      by (rule drop_advance [OF d1])
    have 1: "readString_loop t (Some q) s val =
        readString_loop t (Some q) (advance t (advance t s)) (val @ [e])"
      using p p1 assms(1) by (simp add: readString_loop.simps [of t "Some q" s])
    have 2: "length (items_text (it # items)) = Suc (Suc (length (items_text items)))"
      using Escaped by (simp add: items_text_def)
    show ?thesis
      unfolding 1 2 Cons.IH [OF wf d] using Escaped
      by (simp add: funpow_Suc_shift del: funpow.simps)
  qed
qed


lemma readString_items:
  assumes q: "peek t s = Some q" and nb: "q \<noteq> CHR 0x5C"
    and wf: "list_all (well_formed_item q) items"
    and d: "drop (Suc (pos s)) t = items_text items @ tail"
    and tl: "tail = [] \<or> tail = [CHR 0x5C] \<or> (\<exists>r. tail = q # r)"
  shows "\<exists>s'. readString t s = (s', map item_value items, \<exists>r. tail = q # r) \<and>
     pos s' = (if \<exists>r. tail = q # r then pos s + length (items_text items) + 2 else length t)"
proof -
  let ?n = "length (items_text items)"
  let ?k = "?n + (if tail = [CHR 0x5C] then 1 else 0)"
  let ?s1 = "(advance t ^^ ?k) (advance t s)"
  from q have lt: "pos s < length t" by (rule peek_Some_less)
  from d have d0: "drop (pos (advance t s)) t = items_text items @ tail" by simp
  have loop: "readString_loop t (Some q) (advance t s) [] = (?s1, map item_value items)"
    using readString_loop_items [OF nb wf d0 tl, of "[]"] by simp
  have p1: "pos ?s1 = Suc (pos s) + ?k" by simp
  have len: "length t = Suc (pos s) + ?n + length tail"
  proof -
    from d have "length (drop (Suc (pos s)) t) = ?n + length tail" by simp
    with lt show ?thesis by simp
  qed
  have pk: "pos ?s1 = ?k + Suc (pos s)" by simp
  have dr: "drop (pos ?s1) t = drop ?k (items_text items @ tail)"
    by (simp only: pk drop_drop [symmetric] d)
  from tl consider (e) "tail = []" | (b) "tail = [CHR 0x5C]" | (c) r where "tail = q # r"
    by blast
  then show ?thesis
  proof cases
    case e
    with dr have "peek t ?s1 = None" by (simp add: peek_drop_Nil)
    with q loop e len p1 show ?thesis
      by (simp add: readString_def Let_def)
  next
    case b
    with dr have "peek t ?s1 = None" by (simp add: peek_drop_Nil)
    with q loop b nb len p1 show ?thesis
      by (simp add: readString_def Let_def)
  next
    case c
    with nb have nt: "tail \<noteq> [CHR 0x5C]" by auto
    with dr c have "drop (pos ?s1) t = q # r" by simp
    then have "peek t ?s1 = Some q" by (rule peek_drop)
    with q loop c nt p1 show ?thesis
      by (simp add: readString_def Let_def)
  qed
qed

text \<open>
  Claim C1, as the code has it. The string scan, begun at a quote character, consumes
  characters until a matching unescaped quote or the end of the text; a line feed is
  consumed like any other character. The text after the opening quote always reads as a
  sequence of items followed by the matching quote, by nothing, or by a lone backslash at
  the end of the text. However it reads so, the value of the token is the values of the
  items; when the matching quote follows the items the token is valid and the scan stops
  just after that quote, and otherwise the token is invalid and the scan stops at the end
  of the text. So a literal with no unescaped matching quote in the rest of the text is
  invalid, also when a later quote is escaped, and a literal whose unescaped matching quote
  comes later, on the same line or not, is valid.
\<close>

theorem string_scan_stops_at_quote_or_end_of_text:
  assumes "peek t s = Some q" and "q = CHR 0x22 \<or> q = CHR 0x27"
  shows "\<exists>s' val valid.
    readString t s = (s', val, valid) \<and>
    scan_token t s q =
      (\<lparr>tok_type = STRING, tok_value = val, tok_line = line s, tok_column = column s,
        tok_valid = Some valid\<rparr>, s') \<and>
    (valid \<longrightarrow> pos s + 2 \<le> pos s' \<and> pos s' \<le> length t \<and> t ! (pos s' - 1) = q) \<and>
    (\<not> valid \<longrightarrow> pos s' = length t) \<and>
    (q \<notin> set (drop (Suc (pos s)) t) \<longrightarrow> \<not> valid) \<and>
    (\<forall>body rest. drop (Suc (pos s)) t = body @ q # rest \<and> q \<notin> set body \<and>
        CHR 0x5C \<notin> set body \<longrightarrow>
        valid \<and> val = body \<and> pos s' = pos s + length body + 2) \<and>
    (q \<notin> set (drop (Suc (pos s)) t) \<and> CHR 0x5C \<notin> set (drop (Suc (pos s)) t) \<longrightarrow>
        val = drop (Suc (pos s)) t) \<and>
    (\<exists>items tail. list_all (well_formed_item q) items \<and>
        drop (Suc (pos s)) t = items_text items @ tail \<and>
        (tail = [] \<or> tail = [CHR 0x5C] \<or> (\<exists>r. tail = q # r)) \<and>
        val = map item_value items \<and> (valid \<longleftrightarrow> (\<exists>r. tail = q # r)) \<and>
        pos s' = (if valid then pos s + length (items_text items) + 2 else length t)) \<and>
    (\<forall>items rest. list_all (well_formed_item q) items \<and>
        drop (Suc (pos s)) t = items_text items @ q # rest \<longrightarrow>
        valid \<and> val = map item_value items \<and>
        pos s' = pos s + length (items_text items) + 2) \<and>
    (\<forall>items. list_all (well_formed_item q) items \<and>
        (drop (Suc (pos s)) t = items_text items \<or>
         drop (Suc (pos s)) t = items_text items @ [CHR 0x5C]) \<longrightarrow>
        \<not> valid \<and> val = map item_value items \<and> pos s' = length t)"
proof -
  from assms(2) have nb: "q \<noteq> CHR 0x5C" by auto
  from readString_result [OF assms(1)] obtain s' val valid where
    r: "readString t s = (s', val, valid)" and
    p1: "valid \<longrightarrow> pos s + 2 \<le> pos s' \<and> pos s' \<le> length t \<and> t ! (pos s' - 1) = q" and
    p2: "\<not> valid \<longrightarrow> pos s' = length t" and
    p3: "q \<notin> set (drop (Suc (pos s)) t) \<longrightarrow> \<not> valid" and
    p4: "\<forall>body rest. drop (Suc (pos s)) t = body @ q # rest \<and> q \<notin> set body \<and>
        CHR 0x5C \<notin> set body \<longrightarrow>
        valid \<and> val = body \<and> pos s' = pos s + length body + 2" and
    p5: "q \<notin> set (drop (Suc (pos s)) t) \<and> CHR 0x5C \<notin> set (drop (Suc (pos s)) t) \<longrightarrow>
        val = drop (Suc (pos s)) t"
    by blast
  from r assms(2) have tok: "scan_token t s q =
      (\<lparr>tok_type = STRING, tok_value = val, tok_line = line s, tok_column = column s,
        tok_valid = Some valid\<rparr>, s')"
    by (auto simp add: scan_token_def Let_def)
  have any: "val = map item_value items \<and> (valid \<longleftrightarrow> (\<exists>r. tail = q # r)) \<and>
      pos s' = (if valid then pos s + length (items_text items) + 2 else length t)"
    if "list_all (well_formed_item q) items" "drop (Suc (pos s)) t = items_text items @ tail"
      "tail = [] \<or> tail = [CHR 0x5C] \<or> (\<exists>r. tail = q # r)" for items tail
    using readString_items [OF assms(1) nb that] r by auto
  have ex: "\<exists>items tail. list_all (well_formed_item q) items \<and>
        drop (Suc (pos s)) t = items_text items @ tail \<and>
        (tail = [] \<or> tail = [CHR 0x5C] \<or> (\<exists>r. tail = q # r)) \<and>
        val = map item_value items \<and> (valid \<longleftrightarrow> (\<exists>r. tail = q # r)) \<and>
        pos s' = (if valid then pos s + length (items_text items) + 2 else length t)"
  proof -
    from string_items_exist [of q "drop (Suc (pos s)) t"] obtain items tail where
      i: "list_all (well_formed_item q) items" "drop (Suc (pos s)) t = items_text items @ tail"
        "tail = [] \<or> tail = [CHR 0x5C] \<or> (\<exists>r. tail = q # r)"
      by blast
    from any [OF i] i show ?thesis by blast
  qed
  have closed: "\<forall>items rest. list_all (well_formed_item q) items \<and>
        drop (Suc (pos s)) t = items_text items @ q # rest \<longrightarrow>
        valid \<and> val = map item_value items \<and>
        pos s' = pos s + length (items_text items) + 2"
  proof (intro allI impI)
    fix items rest
    assume a: "list_all (well_formed_item q) items \<and>
        drop (Suc (pos s)) t = items_text items @ q # rest"
    from any [of items "q # rest"] a
    show "valid \<and> val = map item_value items \<and>
        pos s' = pos s + length (items_text items) + 2"
      by simp
  qed
  have opened: "\<forall>items. list_all (well_formed_item q) items \<and>
        (drop (Suc (pos s)) t = items_text items \<or>
         drop (Suc (pos s)) t = items_text items @ [CHR 0x5C]) \<longrightarrow>
        \<not> valid \<and> val = map item_value items \<and> pos s' = length t"
  proof (intro allI impI)
    fix items
    assume a: "list_all (well_formed_item q) items \<and>
        (drop (Suc (pos s)) t = items_text items \<or>
         drop (Suc (pos s)) t = items_text items @ [CHR 0x5C])"
    then consider "drop (Suc (pos s)) t = items_text items @ []"
      | "drop (Suc (pos s)) t = items_text items @ [CHR 0x5C]"
      by auto
    then show "\<not> valid \<and> val = map item_value items \<and> pos s' = length t"
    proof cases
      case 1
      from any [of items "[]", OF _ 1] a show ?thesis by simp
    next
      case 2
      from any [of items "[CHR 0x5C]", OF _ 2] a nb show ?thesis by auto
    qed
  qed
  show ?thesis
    by (rule exI [of _ s'], rule exI [of _ val], rule exI [of _ valid], intro conjI; fact)
qed


theorem string_scan_witness:
  "peek (CHR 0x22 # ''a\<newline>b'' @ [CHR 0x22]) \<lparr>pos = 0, line = 0, column = 0\<rparr> = Some (CHR 0x22) \<and>
   (\<exists>s' val valid.
      readString (CHR 0x22 # ''a\<newline>b'' @ [CHR 0x22]) \<lparr>pos = 0, line = 0, column = 0\<rparr>
        = (s', val, valid) \<and>
      valid \<and> val = ''a\<newline>b'' \<and> pos s' = 5) \<and>
   peek (CHR 0x22 # ''a'' @ [CHR 0x5C, CHR 0x22] @ ''b'' @ [CHR 0x22])
     \<lparr>pos = 0, line = 0, column = 0\<rparr> = Some (CHR 0x22) \<and>
   (\<exists>s' val valid.
      readString (CHR 0x22 # ''a'' @ [CHR 0x5C, CHR 0x22] @ ''b'' @ [CHR 0x22])
        \<lparr>pos = 0, line = 0, column = 0\<rparr> = (s', val, valid) \<and>
      valid \<and> val = ''a'' @ [CHR 0x22] @ ''b'' \<and> pos s' = 6) \<and>
   peek (CHR 0x22 # ''a'' @ [CHR 0x5C, CHR 0x22]) \<lparr>pos = 0, line = 0, column = 0\<rparr>
     = Some (CHR 0x22) \<and>
   (\<exists>s' val valid.
      readString (CHR 0x22 # ''a'' @ [CHR 0x5C, CHR 0x22]) \<lparr>pos = 0, line = 0, column = 0\<rparr>
        = (s', val, valid) \<and>
      \<not> valid \<and> val = ''a'' @ [CHR 0x22] \<and> pos s' = 4)"
proof -
  let ?s = "\<lparr>pos = 0, line = 0, column = 0\<rparr>"
  let ?t = "CHR 0x22 # ''a\<newline>b'' @ [CHR 0x22]"
  let ?u = "CHR 0x22 # ''a'' @ [CHR 0x5C, CHR 0x22] @ ''b'' @ [CHR 0x22]"
  let ?v = "CHR 0x22 # ''a'' @ [CHR 0x5C, CHR 0x22]"
  have ht: "peek ?t ?s = Some (CHR 0x22)" by (simp add: peek_def)
  have hu: "peek ?u ?s = Some (CHR 0x22)" by (simp add: peek_def)
  have hv: "peek ?v ?s = Some (CHR 0x22)" by (simp add: peek_def)
  have a: "\<exists>s' val valid. readString ?t ?s = (s', val, valid) \<and>
      valid \<and> val = ''a\<newline>b'' \<and> pos s' = 5"
    using string_scan_stops_at_quote_or_end_of_text [OF ht disjI1 [OF refl]]
  proof (elim exE conjE)
    fix s' val valid
    assume r: "readString ?t ?s = (s', val, valid)"
      and b: "\<forall>body rest. drop (Suc (pos ?s)) ?t = body @ CHR 0x22 # rest \<and> CHR 0x22 \<notin> set body \<and>
          CHR 0x5C \<notin> set body \<longrightarrow>
          valid \<and> val = body \<and> pos s' = pos ?s + length body + 2"
    from b [rule_format, of "''a\<newline>b''" "[]"]
    have "valid \<and> val = ''a\<newline>b'' \<and> pos s' = 5" by simp
    with r show ?thesis by blast
  qed
  have b: "\<exists>s' val valid. readString ?u ?s = (s', val, valid) \<and>
      valid \<and> val = ''a'' @ [CHR 0x22] @ ''b'' \<and> pos s' = 6"
    using string_scan_stops_at_quote_or_end_of_text [OF hu disjI1 [OF refl]]
  proof (elim exE conjE)
    fix s' val valid
    assume r: "readString ?u ?s = (s', val, valid)"
      and c: "\<forall>items rest. list_all (well_formed_item (CHR 0x22)) items \<and>
          drop (Suc (pos ?s)) ?u = items_text items @ CHR 0x22 # rest \<longrightarrow>
          valid \<and> val = map item_value items \<and>
          pos s' = pos ?s + length (items_text items) + 2"
    from c [rule_format, of "[Plain CHR ''a'', Escaped (CHR 0x22), Plain CHR ''b'']" "[]"]
    have "valid \<and> val = ''a'' @ [CHR 0x22] @ ''b'' \<and> pos s' = 6"
      by (simp add: items_text_def)
    with r show ?thesis by blast
  qed
  have c: "\<exists>s' val valid. readString ?v ?s = (s', val, valid) \<and>
      \<not> valid \<and> val = ''a'' @ [CHR 0x22] \<and> pos s' = 4"
    using string_scan_stops_at_quote_or_end_of_text [OF hv disjI1 [OF refl]]
  proof (elim exE conjE)
    fix s' val valid
    assume r: "readString ?v ?s = (s', val, valid)"
      and c: "\<forall>items. list_all (well_formed_item (CHR 0x22)) items \<and>
          (drop (Suc (pos ?s)) ?v = items_text items \<or>
           drop (Suc (pos ?s)) ?v = items_text items @ [CHR 0x5C]) \<longrightarrow>
          \<not> valid \<and> val = map item_value items \<and> pos s' = length ?v"
    from c [rule_format, of "[Plain CHR ''a'', Escaped (CHR 0x22)]"]
    have "\<not> valid \<and> val = ''a'' @ [CHR 0x22] \<and> pos s' = 4"
      by (simp add: items_text_def)
    with r show ?thesis by blast
  qed
  show ?thesis by (intro conjI; fact)
qed

text \<open>
  The claim as stated fails: the scan does not stop at the end of the line. A literal whose
  closing quote is on the next line gives one valid String token that contains the line
  feed, and without any closing quote the scan runs over the line feed to the end of the
  text.
\<close>

theorem string_across_lines_counterexample:
  "tokenize (CHR 0x22 # ''a\<newline>b'' @ [CHR 0x22]) =
     [\<lparr>tok_type = STRING, tok_value = ''a\<newline>b'', tok_line = 0, tok_column = 0,
       tok_valid = Some True\<rparr>] \<and>
   tokenize (CHR 0x22 # ''a\<newline>b'') =
     [\<lparr>tok_type = STRING, tok_value = ''a\<newline>b'', tok_line = 0, tok_column = 0,
       tok_valid = Some False\<rparr>]"
  by code_simp

end
